theory Spec2Isabelle
  imports Main "HOL-Library.Code_Target_Nat"
begin

unbundle bit_operations_syntax

section \<open>The process environment of bash\_mini.c\<close>

text \<open>
  The shell talks to its environment through system calls only. The environment is a
  record: the queues and oracles say what each call will answer, the remaining fields
  are the state the shell changes (working directory, errno, the log of what it
  emitted, the number of fork calls made).

  \<^item> \<open>stdin_q\<close>: the answers of the successive \<open>read(STDIN_FILENO, &c, 1)\<close> calls; once the
    queue is used up every further read answers end-of-stream.
  \<^item> \<open>write_q\<close>: the answers of the successive \<open>write(2)\<close> calls, those of the shell and
    the one \<open>perror\<close> makes (an error, the number of bytes the call is willing to take,
    possibly fewer than asked, possibly none, or the signal \<open>SIGPIPE\<close>); once the queue
    is used up every further write takes the whole buffer.
  \<^item> \<open>home_env\<close>: \<open>getenv("HOME")\<close>, \<open>None\<close> for an unset variable.
  \<^item> \<open>x_ok\<close>: whether \<open>access(path, X_OK)\<close> answers 0, as it does for a file that may be
    executed and for a directory that may be searched.
  \<^item> \<open>chdir_res\<close>: for the current directory and a target, the errno of a failing
    \<open>chdir\<close> or the directory the process is in afterwards.
  \<^item> \<open>alloc_ok\<close>: whether \<open>malloc\<close>/\<open>realloc\<close> grant a request of that many bytes;
    \<open>fresh_mem\<close>: the (indeterminate) content of memory nobody has written yet.
  \<^item> \<open>fork_res\<close>, \<open>exec_res\<close>, \<open>wait_res\<close>: for the n-th call of \<open>fork\<close>, what it answers
    in the parent, what \<open>execv\<close> does in that child, and what \<open>waitpid\<close> answers for it.
\<close>

datatype read_result = RByte char | REof | RErr nat

text \<open>\<open>WSigpipe\<close>: the descriptor is a pipe or a socket nobody reads any more. The kernel
  then raises \<open>SIGPIPE\<close>; the source has no call of \<open>signal\<close> or \<open>sigaction\<close>, so the
  signal keeps its default action and the process is killed inside the call.\<close>

datatype write_result = WErr nat | WTakes nat | WSigpipe

datatype fork_result = ForkFails nat | ForkParent nat

text \<open>\<open>ExecRuns st\<close>: the image is replaced, and the program that runs ends in a way that
  \<open>waitpid\<close> reports as status \<open>st\<close>.\<close>

datatype exec_result = ExecFails nat | ExecRuns int

datatype wait_result = WaitFails nat | WaitOk

text \<open>What the shell emits: the bytes one \<open>write(2)\<close> call put on a descriptor, a
  \<open>write(2)\<close> that failed, a \<open>perror\<close> with its label and the errno it describes, and a
  write on a descriptor that raised \<open>SIGPIPE\<close>.\<close>

datatype event =
    Wrote nat string
  | WriteFailed nat
  | Perror string nat
  | Sigpipe nat

text \<open>How a forked child ends its run of the shell's code (lines 227-232): its image is
  replaced by the program at the path, with the argument vector (the program then ends
  with the given wait status), or it emits the events and leaves through \<open>_exit\<close> with
  the code. The answers to the child's own writes are no part of the environment of the
  parent: the report of the child is taken to reach its standard error.\<close>

datatype child_end =
    ImageReplaced string "string list" int
  | ChildExited "event list" nat

record world =
  stdin_q :: "read_result list"
  write_q :: "write_result list"
  home_env :: "string option"
  x_ok :: "string \<Rightarrow> bool"
  chdir_res :: "string \<Rightarrow> string \<Rightarrow> nat + string"
  cwd :: string
  alloc_ok :: "nat \<Rightarrow> bool"
  fresh_mem :: "nat \<Rightarrow> char"
  fork_res :: "nat \<Rightarrow> fork_result"
  exec_res :: "nat \<Rightarrow> string \<Rightarrow> string list \<Rightarrow> exec_result"
  wait_res :: "nat \<Rightarrow> wait_result"
  fork_calls :: nat
  children :: "(nat \<times> child_end) list"
  errno :: nat
  log :: "event list"

text \<open>A call of the shell's own code either returns (\<open>Ret\<close>), ends the process through
  \<open>_exit\<close> (\<open>Exit\<close> with the status), is killed by a signal that one of its own system
  calls raises (\<open>Killed\<close> with its number), or leaves the memory it owns (\<open>Fault\<close>).
  Signals sent to the shell from outside are not part of the environment.\<close>

datatype 'a outcome = Ret 'a world | Exit nat world | Killed nat world | Fault world

fun then_do :: "'a outcome \<Rightarrow> (world \<Rightarrow> 'b outcome) \<Rightarrow> 'b outcome" where
  "then_do (Ret _ w) k = k w"
| "then_do (Exit c w) k = Exit c w"
| "then_do (Killed s w) k = Killed s w"
| "then_do (Fault w) k = Fault w"

abbreviation NUL :: char where "NUL \<equiv> CHR 0x00"

definition STDOUT_FILENO :: nat where "STDOUT_FILENO = 1"
definition STDERR_FILENO :: nat where "STDERR_FILENO = 2"

lemma fileno_distinct [simp]:
  "STDOUT_FILENO \<noteq> STDERR_FILENO" "STDERR_FILENO \<noteq> STDOUT_FILENO"
  by (simp_all add: STDOUT_FILENO_def STDERR_FILENO_def)

definition PROMPT :: string where "PROMPT = ''bash-mini$ ''"
definition INITIAL_BUFSZ :: nat where "INITIAL_BUFSZ = 1024"
definition MAX_ARGS :: int where "MAX_ARGS = 128"
definition ENOMEM :: nat where "ENOMEM = 12"
definition SIGPIPE :: nat where "SIGPIPE = 13"

text \<open>What has reached a file descriptor through \<open>write(2)\<close>.\<close>

fun written :: "nat \<Rightarrow> event list \<Rightarrow> string" where
  "written fd [] = []"
| "written fd (Wrote fd' s # es) = (if fd' = fd then s @ written fd es else written fd es)"
| "written fd (_ # es) = written fd es"

fun write_failed :: "event list \<Rightarrow> bool" where
  "write_failed [] = False"
| "write_failed (WriteFailed _ # es) = True"
| "write_failed (_ # es) = write_failed es"

fun sigpipe_raised :: "event list \<Rightarrow> bool" where
  "sigpipe_raised [] = False"
| "sigpipe_raised (Sigpipe _ # es) = True"
| "sigpipe_raised (_ # es) = sigpipe_raised es"

subsection \<open>Small I/O helpers (lines 30-64)\<close>

text \<open>\<open>write(fd, buf, len)\<close>: the call returns its answer, with the environment
  afterwards, or the process is killed by \<open>SIGPIPE\<close> inside it.\<close>

definition sys_write :: "world \<Rightarrow> nat \<Rightarrow> string \<Rightarrow> int outcome" where
  "sys_write w fd buf =
     (case write_q w of
        [] \<Rightarrow> Ret (int (length buf)) (w\<lparr>log := log w @ [Wrote fd buf]\<rparr>)
      | WErr e # q \<Rightarrow>
          Ret (- 1) (w\<lparr>write_q := q, errno := e, log := log w @ [WriteFailed fd]\<rparr>)
      | WTakes n # q \<Rightarrow>
          Ret (int (min n (length buf)))
            (w\<lparr>write_q := q, log := log w @ [Wrote fd (take n buf)]\<rparr>)
      | WSigpipe # q \<Rightarrow> Killed SIGPIPE (w\<lparr>write_q := q, log := log w @ [Sigpipe fd]\<rparr>))"

lemma sys_write_measure:
  "sys_write w fd buf = Ret r w' \<Longrightarrow> buf \<noteq> [] \<Longrightarrow> \<not> r < 0 \<Longrightarrow>
   length (write_q w') < length (write_q w) \<or>
   (length (write_q w') = length (write_q w) \<and> length buf - nat r < length buf)"
  by (auto simp: sys_write_def split: list.splits write_result.splits)

text \<open>Lines 33-42. A \<open>write\<close> that answers \<open>-1\<close> ends the shell with \<open>_exit(1)\<close>.\<close>

function write_all :: "world \<Rightarrow> nat \<Rightarrow> string \<Rightarrow> unit outcome" where
  "write_all w fd buf =
     (if length buf > 0 then
        (case sys_write w fd buf of
           Ret r w' \<Rightarrow>
             if r < 0 then Exit 1 w'
             else write_all w' fd (drop (nat r) buf)
         | Exit c w' \<Rightarrow> Exit c w'
         | Killed s w' \<Rightarrow> Killed s w'
         | Fault w' \<Rightarrow> Fault w')
      else Ret () w)"
  by pat_completeness auto
termination
proof (relation "measures [\<lambda>(w, fd, buf). length (write_q w), \<lambda>(w, fd, buf). length buf]",
    goal_cases)
  case 1
  show ?case by simp
next
  case (2 w fd buf r w')
  then have "sys_write w fd buf = Ret r w'" "buf \<noteq> []" "\<not> r < 0" by auto
  from sys_write_measure [OF this] show ?case by auto
qed

declare write_all.simps [simp del]

definition print_str :: "world \<Rightarrow> nat \<Rightarrow> string \<Rightarrow> unit outcome" where
  "print_str w fd s = write_all w fd s"

text \<open>\<open>perror\<close> goes through stdio, not through \<open>write_all\<close>: the library writes the
  label and the description of the current errno on descriptor 2. One answer of the
  environment stands for that output. \<open>perror\<close> returns nothing, so an error (which
  leaves its number in errno) or a short count stays inside the library and the shell
  goes on; \<open>SIGPIPE\<close> kills the process there as in any other write. The event
  \<open>Perror\<close> records the call, with the errno it describes.\<close>

definition perror :: "world \<Rightarrow> string \<Rightarrow> unit outcome" where
  "perror w label =
     (case write_q w of
        [] \<Rightarrow> Ret () (w\<lparr>log := log w @ [Perror label (errno w)]\<rparr>)
      | WSigpipe # q \<Rightarrow>
          Killed SIGPIPE (w\<lparr>write_q := q, log := log w @ [Sigpipe STDERR_FILENO]\<rparr>)
      | WErr e # q \<Rightarrow>
          Ret () (w\<lparr>write_q := q, errno := e, log := log w @ [Perror label (errno w)]\<rparr>)
      | WTakes n # q \<Rightarrow>
          Ret () (w\<lparr>write_q := q, log := log w @ [Perror label (errno w)]\<rparr>))"

text \<open>\<open>u32_to_str\<close>: the first loop fills \<open>tmp\<close> with the digits, lowest first, and stops
  after 32 of them; the second loop copies them back to front.\<close>

function u32_tmp :: "nat \<Rightarrow> string \<Rightarrow> string" where
  "u32_tmp x tmp =
     (if x > 0 \<and> length tmp < 32
      then u32_tmp (x div 10) (tmp @ [char_of (48 + x mod 10)])
      else tmp)"
  by pat_completeness auto
termination
  by (relation "measure (\<lambda>(x, tmp). x)") auto

declare u32_tmp.simps [simp del]

definition u32_to_str :: "nat \<Rightarrow> string" where
  "u32_to_str x = (if x = 0 then ''0'' else rev (u32_tmp x []))"

subsection \<open>Line reading (lines 66-107)\<close>

text \<open>\<open>size_t\<close> is 64 bits wide: sums and products of sizes wrap.\<close>

definition size_t :: "nat \<Rightarrow> nat" where
  "size_t n = n mod 2 ^ 64"

definition sys_read :: "world \<Rightarrow> read_result \<times> world" where
  "sys_read w =
     (case stdin_q w of
        [] \<Rightarrow> (REof, w)
      | RErr e # q \<Rightarrow> (RErr e, w\<lparr>stdin_q := q, errno := e\<rparr>)
      | r # q \<Rightarrow> (r, w\<lparr>stdin_q := q\<rparr>))"

text \<open>
  A fresh block holds indeterminate bytes; \<open>realloc\<close> keeps the old content up to the
  smaller of the two sizes. No object is larger than \<open>PTRDIFF_MAX\<close> bytes: \<open>malloc\<close> and
  \<open>realloc\<close> refuse such a request whatever the heap could give.
\<close>

definition PTRDIFF_MAX :: nat where
  "PTRDIFF_MAX = 2 ^ 63 - 1"

definition sys_malloc :: "world \<Rightarrow> nat \<Rightarrow> char list option \<times> world" where
  "sys_malloc w n =
     (if n \<le> PTRDIFF_MAX \<and> alloc_ok w n then (Some (map (fresh_mem w) [0..<n]), w)
      else (None, w\<lparr>errno := ENOMEM\<rparr>))"

definition sys_realloc :: "world \<Rightarrow> char list \<Rightarrow> nat \<Rightarrow> char list option \<times> world" where
  "sys_realloc w old n =
     (if n \<le> PTRDIFF_MAX \<and> alloc_ok w n
      then (Some (take n old @ map (fresh_mem w) [length old..<n]), w)
      else (None, w\<lparr>errno := ENOMEM\<rparr>))"

text \<open>A store into a block: \<open>None\<close> when the index is outside the block.\<close>

definition store_at :: "char list \<Rightarrow> nat \<Rightarrow> char \<Rightarrow> char list option" where
  "store_at buf n c = (if n < length buf then Some (buf[n := c]) else None)"

text \<open>The state of the loop of \<open>read_line\<close>: the block \<open>*line\<close>, \<open>*cap\<close> and \<open>len\<close>.\<close>

record rl_state =
  rl_world :: world
  rl_line :: "char list"
  rl_cap :: nat
  rl_len :: nat

datatype rl_step = RL_Next rl_state | RL_Return int rl_state | RL_Fault rl_state

text \<open>Lines 84-90: make room for one more byte and the terminator.\<close>

definition rl_grow :: "rl_state \<Rightarrow> rl_step" where
  "rl_grow s =
     (if size_t (rl_len s + 2) > rl_cap s then
        (let new_cap = size_t (rl_cap s * 2) in
         case sys_realloc (rl_world s) (rl_line s) new_cap of
           (None, w') \<Rightarrow> RL_Return (- 1) (s\<lparr>rl_world := w'\<rparr>)
         | (Some tmp, w') \<Rightarrow> RL_Next (s\<lparr>rl_world := w', rl_line := tmp, rl_cap := new_cap\<rparr>))
      else RL_Next s)"

text \<open>Lines 105-106, after the loop was left by \<open>break\<close>.\<close>

definition rl_finish :: "rl_state \<Rightarrow> rl_step" where
  "rl_finish s =
     (case store_at (rl_line s) (rl_len s) NUL of
        None \<Rightarrow> RL_Fault s
      | Some l \<Rightarrow> RL_Return 1 (s\<lparr>rl_line := l\<rparr>))"

text \<open>One turn of the loop (lines 84-102): \<open>RL_Next\<close> goes round again, \<open>RL_Return\<close> is
  what \<open>read_line\<close> returns (for a \<open>break\<close>, after lines 105-106).\<close>

definition read_iter :: "rl_state \<Rightarrow> rl_step" where
  "read_iter s =
     (case rl_grow s of
        RL_Next s1 \<Rightarrow>
          (case sys_read (rl_world s1) of
             (RErr e, w2) \<Rightarrow> RL_Return (- 1) (s1\<lparr>rl_world := w2\<rparr>)
           | (REof, w2) \<Rightarrow>
               if rl_len s1 = 0 then RL_Return 0 (s1\<lparr>rl_world := w2\<rparr>)
               else rl_finish (s1\<lparr>rl_world := w2\<rparr>)
           | (RByte c, w2) \<Rightarrow>
               if c = CHR 0x0A then rl_finish (s1\<lparr>rl_world := w2\<rparr>)
               else (case store_at (rl_line s1) (rl_len s1) c of
                       None \<Rightarrow> RL_Fault (s1\<lparr>rl_world := w2\<rparr>)
                     | Some l \<Rightarrow>
                         RL_Next (s1\<lparr>rl_world := w2, rl_line := l,
                                    rl_len := size_t (rl_len s1 + 1)\<rparr>)))
      | r \<Rightarrow> r)"

lemma sys_read_byte_shorter:
  "sys_read w = (RByte c, w2) \<Longrightarrow> length (stdin_q w2) < length (stdin_q w)"
  by (auto simp: sys_read_def split: list.splits read_result.splits)

lemma rl_grow_stdin:
  "rl_grow s = RL_Next s1 \<Longrightarrow> stdin_q (rl_world s1) = stdin_q (rl_world s)"
  by (auto simp: rl_grow_def sys_realloc_def Let_def split: if_splits)

lemma rl_finish_not_next: "rl_finish s \<noteq> RL_Next s'"
  by (simp add: rl_finish_def split: option.splits)

lemma read_iter_shorter:
  assumes "read_iter s = RL_Next s'"
  shows "length (stdin_q (rl_world s')) < length (stdin_q (rl_world s))"
proof -
  from assms obtain s1 where g: "rl_grow s = RL_Next s1"
    by (auto simp: read_iter_def split: rl_step.splits)
  from assms g obtain c w2 where r: "sys_read (rl_world s1) = (RByte c, w2)"
    and w: "rl_world s' = w2"
    by (auto simp: read_iter_def rl_finish_not_next
        split: rl_step.splits prod.splits read_result.splits if_splits option.splits)
  from sys_read_byte_shorter [OF r] rl_grow_stdin [OF g] w show ?thesis by simp
qed

function read_loop :: "rl_state \<Rightarrow> (int \<times> char list option \<times> nat) outcome" where
  "read_loop s =
     (case read_iter s of
        RL_Next s' \<Rightarrow> read_loop s'
      | RL_Return r s' \<Rightarrow> Ret (r, Some (rl_line s'), rl_cap s') (rl_world s')
      | RL_Fault s' \<Rightarrow> Fault (rl_world s'))"
  by pat_completeness auto
termination
  by (relation "measure (\<lambda>s. length (stdin_q (rl_world s)))")
     (auto simp: read_iter_shorter)

declare read_loop.simps [simp del]

text \<open>Lines 75-79: the first call, or a caller without a buffer, gets a block of
  \<open>INITIAL_BUFSZ\<close> bytes. The result is \<open>*line\<close> and \<open>*cap\<close> afterwards.\<close>

definition rl_enter ::
  "world \<Rightarrow> char list option \<Rightarrow> nat \<Rightarrow> char list option \<times> nat \<times> world" where
  "rl_enter w line cap =
     (if line = None \<or> cap = 0
      then (case sys_malloc w INITIAL_BUFSZ of (l, w') \<Rightarrow> (l, INITIAL_BUFSZ, w'))
      else (line, cap, w))"

text \<open>\<open>read_line(&line, &cap)\<close>: the returned int, and \<open>line\<close> and \<open>cap\<close> afterwards
  (\<open>None\<close> is the null pointer).\<close>

definition read_line ::
  "world \<Rightarrow> char list option \<Rightarrow> nat \<Rightarrow> (int \<times> char list option \<times> nat) outcome" where
  "read_line w line cap =
     (case rl_enter w line cap of
        (None, cap1, w1) \<Rightarrow> Ret (- 1, None, cap1) w1
      | (Some buf, cap1, w1) \<Rightarrow>
          read_loop \<lparr>rl_world = w1, rl_line = buf, rl_cap = cap1, rl_len = 0\<rparr>)"

subsection \<open>Parsing (lines 109-132)\<close>

text \<open>
  The line is the block \<open>read_line\<close> filled; a position is an offset into it. Reading at
  an offset gives the byte there; the scan stops at the first NUL, which \<open>read_line\<close>
  stored inside the block, and an offset at the end of the list reads as that terminator.
  A token is the offset of its first byte: \<open>cstr_at\<close> reads the C string that starts
  there, as \<open>strcmp\<close>, \<open>chdir\<close> and \<open>execv\<close> do.
\<close>

definition byte_at :: "char list \<Rightarrow> nat \<Rightarrow> char" where
  "byte_at buf p = (if p < length buf then buf ! p else NUL)"

definition cstr_at :: "char list \<Rightarrow> nat \<Rightarrow> string" where
  "cstr_at buf p = takeWhile (\<lambda>c. c \<noteq> NUL) (drop p buf)"

text \<open>Line 116: \<open>while (*p == ' ' || *p == '\\t') p++;\<close>\<close>

function skip_blanks :: "char list \<Rightarrow> nat \<Rightarrow> nat" where
  "skip_blanks line p =
     (if byte_at line p = CHR '' '' \<or> byte_at line p = CHR 0x09
      then skip_blanks line (p + 1) else p)"
  by pat_completeness auto
termination
  by (relation "measure (\<lambda>(line, p). length line - p)")
     (auto simp: byte_at_def split: if_splits)

text \<open>Line 122: \<open>while (*p != '\\0' && *p != ' ' && *p != '\\t') p++;\<close>\<close>

function skip_token :: "char list \<Rightarrow> nat \<Rightarrow> nat" where
  "skip_token line p =
     (if byte_at line p \<noteq> NUL \<and> byte_at line p \<noteq> CHR '' '' \<and> byte_at line p \<noteq> CHR 0x09
      then skip_token line (p + 1) else p)"
  by pat_completeness auto
termination
  by (relation "measure (\<lambda>(line, p). length line - p)")
     (auto simp: byte_at_def split: if_splits)

declare skip_blanks.simps [simp del] skip_token.simps [simp del]

lemma skip_blanks_ge: "p \<le> skip_blanks line p"
proof (induction line p rule: skip_blanks.induct)
  case (1 line p)
  then show ?case by (subst skip_blanks.simps) auto
qed

lemma skip_blanks_stop:
  "byte_at line (skip_blanks line p) \<noteq> CHR '' '' \<and> byte_at line (skip_blanks line p) \<noteq> CHR 0x09"
proof (induction line p rule: skip_blanks.induct)
  case (1 line p)
  then show ?case by (subst (1 2) skip_blanks.simps) auto
qed

lemma skip_token_ge: "p \<le> skip_token line p"
proof (induction line p rule: skip_token.induct)
  case (1 line p)
  then show ?case by (subst skip_token.simps) auto
qed

lemma skip_token_gt:
  "byte_at line p \<noteq> NUL \<Longrightarrow> byte_at line p \<noteq> CHR '' '' \<Longrightarrow> byte_at line p \<noteq> CHR 0x09
   \<Longrightarrow> p < skip_token line p"
  using skip_token_ge [of "p + 1" line] by (subst skip_token.simps) auto

lemma byte_at_nonzero_lt: "byte_at line p \<noteq> NUL \<Longrightarrow> p < length line"
  by (auto simp: byte_at_def split: if_splits)

text \<open>The outer loop (lines 115-128), from position \<open>p\<close> with the tokens found so far;
  the result is the line as the loop leaves it and \<open>argv[0..argc)\<close>.\<close>

function parse_loop :: "char list \<Rightarrow> nat \<Rightarrow> nat list \<Rightarrow> int \<Rightarrow> char list \<times> nat list" where
  "parse_loop line p argv max_args =
     (if byte_at line p = NUL then (line, argv)
      else let p1 = skip_blanks line p in
        if byte_at line p1 = NUL then (line, argv)
        else if int (length argv) \<ge> max_args - 1 then (line, argv)
        else let argv' = argv @ [p1]; p2 = skip_token line p1 in
          if byte_at line p2 \<noteq> NUL
          then parse_loop (line[p2 := NUL]) (p2 + 1) argv' max_args
          else parse_loop line p2 argv' max_args)"
  by pat_completeness auto
termination
proof (relation "measure (\<lambda>(line, p, argv, max_args). length line - p)", goal_cases)
  case 1
  then show ?case by simp
next
  case (2 line p argv max_args p1 argv' p2)
  have "p \<le> p1" using 2 skip_blanks_ge by simp
  moreover have "p1 < p2"
    using 2 skip_token_gt [of line p1] skip_blanks_stop [of line p] by simp
  moreover have "p2 < length line" using 2 byte_at_nonzero_lt by simp
  ultimately show ?case by simp
next
  case (3 line p argv max_args p1 argv' p2)
  have "p \<le> p1" using 3 skip_blanks_ge by simp
  moreover have "p1 < p2"
    using 3 skip_token_gt [of line p1] skip_blanks_stop [of line p] by simp
  moreover have "p < length line" using 3 byte_at_nonzero_lt by simp
  ultimately show ?case by simp
qed

declare parse_loop.simps [simp del]

definition parse_tokens :: "char list \<Rightarrow> int \<Rightarrow> char list \<times> nat list" where
  "parse_tokens line max_args = parse_loop line 0 [] max_args"

subsection \<open>Command search (lines 134-180)\<close>

definition is_executable :: "world \<Rightarrow> string \<Rightarrow> bool" where
  "is_executable w path = x_ok w path"

text \<open>\<open>memcpy(out_path + n, src, strlen(src))\<close>: \<open>None\<close> when it would leave the block.\<close>

definition memcpy_at :: "char list \<Rightarrow> nat \<Rightarrow> string \<Rightarrow> char list option" where
  "memcpy_at buf n src =
     (if n + length src \<le> length buf
      then Some (take n buf @ src @ drop (n + length src) buf) else None)"

text \<open>Lines 151-157 (and 167-173): the directory, a slash, the command, the terminator.\<close>

definition put_path :: "char list \<Rightarrow> string \<Rightarrow> string \<Rightarrow> char list option" where
  "put_path out_path dir cmd =
     Option.bind (memcpy_at out_path 0 dir) (\<lambda>b1.
     Option.bind (store_at b1 (length dir) (CHR ''/'')) (\<lambda>b2.
     Option.bind (memcpy_at b2 (length dir + 1) cmd) (\<lambda>b3.
     store_at b3 (length dir + 1 + length cmd) NUL)))"

text \<open>
  Lines 149-160 for \<open>$HOME\<close> and lines 165-176 for \<open>/bin\<close> are the same block: the
  length check, the path written into \<open>out_path\<close>, the permission test on what the
  buffer then holds. The result says whether the function returns 1 here, and gives the
  buffer. (Two strings that lie in one address space have lengths whose sum is below
  \<open>2 ^ 64\<close>, so \<open>need\<close> is the plain sum.)
\<close>

definition try_dir ::
  "world \<Rightarrow> string \<Rightarrow> string \<Rightarrow> char list \<Rightarrow> nat \<Rightarrow> (bool \<times> char list) option" where
  "try_dir w dir cmd out_path out_sz =
     (let need = length dir + 1 + length cmd + 1 in
      if need \<le> out_sz then
        (case put_path out_path dir cmd of
           None \<Rightarrow> None
         | Some b \<Rightarrow> Some (is_executable w (cstr_at b 0), b))
      else Some (False, out_path))"

text \<open>\<open>find_command_path(cmd, out_path, out_sz)\<close>: the returned int and the buffer, or
  \<open>None\<close> when a store left the buffer.\<close>

definition find_command_path ::
  "world \<Rightarrow> string \<Rightarrow> char list \<Rightarrow> nat \<Rightarrow> (int \<times> char list) option" where
  "find_command_path w cmd out_path out_sz =
     (case (case home_env w of
              None \<Rightarrow> Some (False, out_path)
            | Some home \<Rightarrow>
                if home \<noteq> [] then try_dir w home cmd out_path out_sz
                else Some (False, out_path)) of
        None \<Rightarrow> None
      | Some (True, b) \<Rightarrow> Some (1, b)
      | Some (False, b) \<Rightarrow>
          (case try_dir w ''/bin'' cmd b out_sz of
             None \<Rightarrow> None
           | Some (True, b') \<Rightarrow> Some (1, b')
           | Some (False, b') \<Rightarrow> Some (0, b')))"

subsection \<open>Internal commands (lines 182-200)\<close>

definition sys_chdir :: "world \<Rightarrow> string \<Rightarrow> int \<times> world" where
  "sys_chdir w target =
     (case chdir_res w (cwd w) target of
        Inl e \<Rightarrow> (- 1, w\<lparr>errno := e\<rparr>)
      | Inr d \<Rightarrow> (0, w\<lparr>cwd := d\<rparr>))"

definition handle_cd :: "world \<Rightarrow> int \<Rightarrow> string list \<Rightarrow> unit outcome" where
  "handle_cd w argc argv =
     (case (if argc < 2 then
              (case home_env w of
                 None \<Rightarrow> None
               | Some target \<Rightarrow> if target = [] then None else Some target)
            else Some (argv ! 1)) of
        None \<Rightarrow> print_str w STDERR_FILENO ''cd: HOME not set\<newline>''
      | Some target \<Rightarrow>
          (case sys_chdir w target of (r, w') \<Rightarrow>
             if r \<noteq> 0 then perror w' ''cd'' else Ret () w'))"

subsection \<open>External execution (lines 202-262)\<close>

definition print_unknown_command :: "world \<Rightarrow> string \<Rightarrow> unit outcome" where
  "print_unknown_command w cmd =
     then_do (print_str w STDERR_FILENO '']'') (\<lambda>w.
     then_do (print_str w STDERR_FILENO cmd) (\<lambda>w.
     print_str w STDERR_FILENO '']: Unknown Command[\<newline>''))"

text \<open>
  The wait status macros of \<open><sys/wait.h>\<close>, as Linux and glibc define them:
  the low seven bits hold the terminating signal (0 for a normal exit, \<open>0x7f\<close> for a
  stopped process), bits 8 to 15 the exit code.
\<close>

definition WTERMSIG :: "int \<Rightarrow> int" where
  "WTERMSIG status = status AND 0x7f"

definition WEXITSTATUS :: "int \<Rightarrow> int" where
  "WEXITSTATUS status = drop_bit 8 (status AND 0xff00)"

definition WIFEXITED :: "int \<Rightarrow> bool" where
  "WIFEXITED status = (WTERMSIG status = 0)"

text \<open>\<open>((signed char) ((status & 0x7f) + 1) >> 1) > 0\<close>\<close>

definition signed_char :: "int \<Rightarrow> int" where
  "signed_char v = (if v mod 256 \<ge> 128 then v mod 256 - 256 else v mod 256)"

definition WIFSIGNALED :: "int \<Rightarrow> bool" where
  "WIFSIGNALED status = (signed_char ((status AND 0x7f) + 1) div 2 > 0)"

text \<open>The status \<open>waitpid\<close> stores for a child: an exit with code \<open>c\<close> is
  \<open>(c & 0xff) << 8\<close>; a child that became another program ends as that program does.\<close>

fun wait_status :: "child_end \<Rightarrow> int" where
  "wait_status (ChildExited _ c) = push_bit 8 (int c AND 0xff)"
| "wait_status (ImageReplaced _ _ st) = st"

definition sys_fork :: "world \<Rightarrow> fork_result \<times> world" where
  "sys_fork w =
     (case fork_res w (fork_calls w) of
        ForkFails e \<Rightarrow> (ForkFails e, w\<lparr>fork_calls := fork_calls w + 1, errno := e\<rparr>)
      | ForkParent pid \<Rightarrow> (ForkParent pid, w\<lparr>fork_calls := fork_calls w + 1\<rparr>))"

text \<open>Lines 227-232, run by the n-th child: \<open>execv\<close>, and when that returns, \<open>perror\<close> and
  \<open>_exit(127)\<close>.\<close>

definition child_after_fork :: "world \<Rightarrow> nat \<Rightarrow> string \<Rightarrow> string list \<Rightarrow> child_end" where
  "child_after_fork w n path argv =
     (case exec_res w n path argv of
        ExecRuns st \<Rightarrow> ImageReplaced path argv st
      | ExecFails e \<Rightarrow> ChildExited [Perror ''exec'' e] 127)"

text \<open>\<open>waitpid(pid, &status, 0)\<close> for the n-th child, at its return: the status, or
  \<open>None\<close> for the answer \<open>-1\<close>.\<close>

definition sys_waitpid :: "world \<Rightarrow> nat \<Rightarrow> child_end \<Rightarrow> int option \<times> world" where
  "sys_waitpid w n child =
     (case wait_res w n of
        WaitFails e \<Rightarrow> (None, w\<lparr>errno := e\<rparr>)
      | WaitOk \<Rightarrow> (Some (wait_status child), w))"

text \<open>Lines 243-261.\<close>

definition report_status :: "world \<Rightarrow> int \<Rightarrow> unit outcome" where
  "report_status w status =
     (if WIFEXITED status then
        (let rc = nat (WEXITSTATUS status mod 2 ^ 32); num = u32_to_str rc in
         then_do (print_str w STDOUT_FILENO ''Command finished. Return code: '') (\<lambda>w.
         then_do (print_str w STDOUT_FILENO num) (\<lambda>w.
         print_str w STDOUT_FILENO ''\<newline>'')))
      else if WIFSIGNALED status then
        (let sig = nat (WTERMSIG status mod 2 ^ 32); num = u32_to_str sig in
         then_do (print_str w STDOUT_FILENO ''Command terminated by signal: '') (\<lambda>w.
         then_do (print_str w STDOUT_FILENO num) (\<lambda>w.
         print_str w STDOUT_FILENO ''\<newline>'')))
      else print_str w STDOUT_FILENO ''Command finished with unknown status.\<newline>'')"

text \<open>\<open>execute_external(argv)\<close>, in the parent. \<open>path_buf\<close> is a block of 4096 bytes
  nobody has written. The child the fork creates is recorded with its pid.\<close>

definition execute_external :: "world \<Rightarrow> string list \<Rightarrow> unit outcome" where
  "execute_external w argv =
     (let path_buf = map (fresh_mem w) [0..<4096] in
      case find_command_path w (argv ! 0) path_buf 4096 of
        None \<Rightarrow> Fault w
      | Some (found, path_buf) \<Rightarrow>
          if found = 0 then print_unknown_command w (argv ! 0)
          else
            (let n = fork_calls w in
             case sys_fork w of
               (ForkFails e, w1) \<Rightarrow> perror w1 ''fork''
             | (ForkParent pid, w1) \<Rightarrow>
                 (let child = child_after_fork w1 n (cstr_at path_buf 0) argv;
                      w2 = w1\<lparr>children := children w1 @ [(pid, child)]\<rparr>
                  in case sys_waitpid w2 n child of
                       (None, w3) \<Rightarrow> perror w3 ''waitpid''
                     | (Some status, w3) \<Rightarrow>
                         then_do (print_str w3 STDOUT_FILENO ''Command executed successfully.\<newline>'')
                           (\<lambda>w. report_status w status))))"

subsection \<open>main (lines 264-300)\<close>

text \<open>
  What the output functions leave alone: \<open>same_oracles\<close> are the fields no function of
  the shell changes except by reading standard input; \<open>only_output\<close> adds the working
  directory and the children, so that only \<open>write_q\<close>, \<open>errno\<close> and \<open>log\<close> differ.
\<close>

definition same_oracles :: "world \<Rightarrow> world \<Rightarrow> bool" where
  "same_oracles w w' =
     (home_env w' = home_env w \<and> x_ok w' = x_ok w \<and> chdir_res w' = chdir_res w \<and>
      alloc_ok w' = alloc_ok w \<and> fresh_mem w' = fresh_mem w \<and> fork_res w' = fork_res w \<and>
      exec_res w' = exec_res w \<and> wait_res w' = wait_res w)"

definition only_output :: "world \<Rightarrow> world \<Rightarrow> bool" where
  "only_output w w' =
     (same_oracles w w' \<and> stdin_q w' = stdin_q w \<and> cwd w' = cwd w \<and>
      fork_calls w' = fork_calls w \<and> children w' = children w)"

lemma same_oracles_refl [simp]: "same_oracles w w"
  by (simp add: same_oracles_def)

lemma only_output_refl [simp]: "only_output w w"
  by (simp add: only_output_def)

lemma same_oracles_trans: "same_oracles w w1 \<Longrightarrow> same_oracles w1 w2 \<Longrightarrow> same_oracles w w2"
  by (simp add: same_oracles_def)

lemma only_output_trans: "only_output w w1 \<Longrightarrow> only_output w1 w2 \<Longrightarrow> only_output w w2"
  by (simp add: only_output_def same_oracles_def)

definition wrote_only :: "nat \<Rightarrow> event list \<Rightarrow> bool" where
  "wrote_only fd es = (\<forall>e \<in> set es. \<exists>s. e = Wrote fd s)"

lemma wrote_only_simps [simp]:
  "wrote_only fd []"
  "wrote_only fd (e # es) = ((\<exists>s. e = Wrote fd s) \<and> wrote_only fd es)"
  "wrote_only fd (es @ es') = (wrote_only fd es \<and> wrote_only fd es')"
  by (auto simp: wrote_only_def)

lemma written_append [simp]: "written fd (es @ es') = written fd es @ written fd es'"
  by (induction fd es rule: written.induct) auto

lemma write_failed_append [simp]:
  "write_failed (es @ es') = (write_failed es \<or> write_failed es')"
  by (induction es rule: write_failed.induct) auto

lemma wrote_only_other: "wrote_only fd es \<Longrightarrow> fd' \<noteq> fd \<Longrightarrow> written fd' es = []"
  by (induction es) auto

lemma wrote_only_not_failed: "wrote_only fd es \<Longrightarrow> \<not> write_failed es"
  by (induction es) auto

lemma sigpipe_raised_append [simp]:
  "sigpipe_raised (es @ es') = (sigpipe_raised es \<or> sigpipe_raised es')"
  by (induction es rule: sigpipe_raised.induct) auto

lemma wrote_only_not_sigpipe: "wrote_only fd es \<Longrightarrow> \<not> sigpipe_raised es"
  by (induction es) auto

lemma take_min_length: "take (min n (length xs)) xs = take n xs"
  by (simp add: min_def)

lemma sys_write_ok:
  "sys_write w fd buf = Ret r w1 \<Longrightarrow> \<not> r < 0 \<Longrightarrow>
   only_output w w1 \<and> errno w1 = errno w \<and> log w1 = log w @ [Wrote fd (take (nat r) buf)]"
  by (auto simp: sys_write_def take_min_length only_output_def same_oracles_def
      split: list.splits write_result.splits)

lemma sys_write_err:
  "sys_write w fd buf = Ret r w1 \<Longrightarrow> r < 0 \<Longrightarrow>
   only_output w w1 \<and> log w1 = log w @ [WriteFailed fd]"
  by (auto simp: sys_write_def only_output_def same_oracles_def
      split: list.splits write_result.splits)

lemma sys_write_killed:
  "sys_write w fd buf = Killed s w1 \<Longrightarrow>
   s = SIGPIPE \<and> only_output w w1 \<and> log w1 = log w @ [Sigpipe fd] \<and>
   (\<exists>q. write_q w = WSigpipe # q)"
  by (auto simp: sys_write_def only_output_def same_oracles_def
      split: list.splits write_result.splits)

lemma sys_write_not_Exit [simp]: "sys_write w fd buf \<noteq> Exit c w1"
  by (auto simp: sys_write_def split: list.splits write_result.splits)

lemma sys_write_not_Fault [simp]: "sys_write w fd buf \<noteq> Fault w1"
  by (auto simp: sys_write_def split: list.splits write_result.splits)

lemma write_all_Ret:
  "write_all w fd buf = Ret u w' \<Longrightarrow>
   only_output w w' \<and> errno w' = errno w \<and>
   (\<exists>es. log w' = log w @ es \<and> wrote_only fd es \<and> written fd es = buf)"
proof (induction w fd buf arbitrary: w' rule: write_all.induct)
  case (1 w fd buf)
  show ?case
  proof (cases "length buf > 0")
    case False
    with "1.prems" have "w' = w" "buf = []" by (auto simp: write_all.simps [of w fd buf])
    then have "log w' = log w @ [] \<and> wrote_only fd [] \<and> written fd [] = buf" by simp
    with \<open>w' = w\<close> show ?thesis by (metis only_output_refl)
  next
    case True
    from True "1.prems" obtain r w1 where sw: "sys_write w fd buf = Ret r w1"
      by (cases "sys_write w fd buf") (auto simp: write_all.simps [of w fd buf])
    with True "1.prems" have nr: "\<not> r < 0"
      and wa: "write_all w1 fd (drop (nat r) buf) = Ret u w'"
      by (auto simp: write_all.simps [of w fd buf] split: if_splits)
    from "1.IH" [OF True sw nr wa] obtain es where
      es: "only_output w1 w'" "errno w' = errno w1" "log w' = log w1 @ es"
      "wrote_only fd es" "written fd es = drop (nat r) buf" by blast
    note e = sys_write_ok [OF sw nr]
    have "log w' = log w @ (Wrote fd (take (nat r) buf) # es)" using es(3) e by simp
    moreover have "wrote_only fd (Wrote fd (take (nat r) buf) # es)" using es(4) by simp
    moreover have "written fd (Wrote fd (take (nat r) buf) # es) = buf" using es(5) by simp
    moreover have "only_output w w'" using e es(1) only_output_trans by blast
    moreover have "errno w' = errno w" using e es(2) by simp
    ultimately show ?thesis by blast
  qed
qed

lemma write_all_Exit:
  "write_all w fd buf = Exit c w' \<Longrightarrow>
   c = 1 \<and> only_output w w' \<and>
   (\<exists>es. log w' = log w @ es @ [WriteFailed fd] \<and> wrote_only fd es)"
proof (induction w fd buf arbitrary: w' rule: write_all.induct)
  case (1 w fd buf)
  show ?case
  proof (cases "length buf > 0")
    case False
    with "1.prems" show ?thesis by (auto simp: write_all.simps [of w fd buf])
  next
    case True
    from True "1.prems" obtain r w1 where sw: "sys_write w fd buf = Ret r w1"
      by (cases "sys_write w fd buf") (auto simp: write_all.simps [of w fd buf])
    show ?thesis
    proof (cases "r < 0")
      case True
      with \<open>length buf > 0\<close> sw "1.prems" have c: "c = 1" "w' = w1"
        by (auto simp: write_all.simps [of w fd buf])
      from sys_write_err [OF sw True] c
      have "only_output w w'" "log w' = log w @ [] @ [WriteFailed fd] \<and> wrote_only fd []"
        by simp_all
      with c show ?thesis by blast
    next
      case False
      with True sw "1.prems" have wa: "write_all w1 fd (drop (nat r) buf) = Exit c w'"
        by (auto simp: write_all.simps [of w fd buf])
      from "1.IH" [OF True sw False wa] obtain es where
        c: "c = 1" and
        es: "only_output w1 w'" "log w' = log w1 @ es @ [WriteFailed fd]" "wrote_only fd es"
        by blast
      note e = sys_write_ok [OF sw False]
      have "log w' = log w @ (Wrote fd (take (nat r) buf) # es) @ [WriteFailed fd]"
        using es(2) e by simp
      moreover have "wrote_only fd (Wrote fd (take (nat r) buf) # es)" using es(3) by simp
      moreover have "only_output w w'" using e es(1) only_output_trans by blast
      ultimately show ?thesis using c by blast
    qed
  qed
qed

lemma write_all_Killed:
  "write_all w fd buf = Killed s w' \<Longrightarrow>
   s = SIGPIPE \<and> only_output w w' \<and>
   (\<exists>es. log w' = log w @ es @ [Sigpipe fd] \<and> wrote_only fd es)"
proof (induction w fd buf arbitrary: w' rule: write_all.induct)
  case (1 w fd buf)
  show ?case
  proof (cases "length buf > 0")
    case False
    with "1.prems" show ?thesis by (auto simp: write_all.simps [of w fd buf])
  next
    case True
    show ?thesis
    proof (cases "sys_write w fd buf")
      case (Ret r w1)
      with True "1.prems" have nr: "\<not> r < 0"
        and wa: "write_all w1 fd (drop (nat r) buf) = Killed s w'"
        by (auto simp: write_all.simps [of w fd buf] split: if_splits)
      from "1.IH" [OF True Ret nr wa] obtain es where
        c: "s = SIGPIPE" and
        es: "only_output w1 w'" "log w' = log w1 @ es @ [Sigpipe fd]" "wrote_only fd es"
        by blast
      note e = sys_write_ok [OF Ret nr]
      have "log w' = log w @ (Wrote fd (take (nat r) buf) # es) @ [Sigpipe fd]"
        using es(2) e by simp
      moreover have "wrote_only fd (Wrote fd (take (nat r) buf) # es)" using es(3) by simp
      moreover have "only_output w w'" using e es(1) only_output_trans by blast
      ultimately show ?thesis using c by blast
    next
      case (Killed s1 w1)
      with True "1.prems" have c: "s = s1" "w' = w1"
        by (auto simp: write_all.simps [of w fd buf])
      from sys_write_killed [OF Killed] c
      have "s = SIGPIPE" "only_output w w'"
        "log w' = log w @ [] @ [Sigpipe fd] \<and> wrote_only fd []"
        by simp_all
      then show ?thesis by blast
    qed simp_all
  qed
qed

lemma write_all_not_Fault: "write_all w fd buf \<noteq> Fault w'"
proof (induction w fd buf rule: write_all.induct)
  case (1 w fd buf)
  show ?case
  proof (cases "length buf > 0")
    case False
    then show ?thesis by (subst write_all.simps) simp
  next
    case True
    show ?thesis
    proof (cases "sys_write w fd buf")
      case (Ret r w1)
      show ?thesis
      proof (cases "r < 0")
        case True
        with \<open>length buf > 0\<close> Ret show ?thesis by (subst write_all.simps) simp
      next
        case False
        with True Ret "1.IH" [OF True Ret False] show ?thesis
          by (subst write_all.simps) simp
      qed
    next
      case (Killed s1 w1)
      with True show ?thesis by (subst write_all.simps) simp
    qed simp_all
  qed
qed

text \<open>The environment an outcome leaves behind.\<close>

fun world_of :: "'a outcome \<Rightarrow> world" where
  "world_of (Ret _ w) = w"
| "world_of (Exit _ w) = w"
| "world_of (Killed _ w) = w"
| "world_of (Fault w) = w"

lemma write_all_frame: "only_output w (world_of (write_all w fd buf))"
proof (cases "write_all w fd buf")
  case (Ret u w')
  with write_all_Ret [OF Ret] show ?thesis by simp
next
  case (Exit c w')
  with write_all_Exit [OF Exit] show ?thesis by simp
next
  case (Killed s w')
  with write_all_Killed [OF Killed] show ?thesis by simp
next
  case (Fault w')
  with write_all_not_Fault show ?thesis by blast
qed

text \<open>The answers still to come are among those of the start, and a write is killed only
  by an answer \<open>SIGPIPE\<close> of the environment.\<close>

lemma sys_write_write_q:
  "sys_write w fd buf = Ret r w1 \<Longrightarrow> set (write_q w1) \<subseteq> set (write_q w)"
  by (auto simp: sys_write_def split: list.splits write_result.splits)

lemma write_all_write_q:
  "write_all w fd buf = Ret u w' \<Longrightarrow> set (write_q w') \<subseteq> set (write_q w)"
proof (induction w fd buf arbitrary: w' rule: write_all.induct)
  case (1 w fd buf)
  show ?case
  proof (cases "length buf > 0")
    case False
    with "1.prems" show ?thesis by (auto simp: write_all.simps [of w fd buf])
  next
    case True
    from True "1.prems" obtain r w1 where sw: "sys_write w fd buf = Ret r w1"
      by (cases "sys_write w fd buf") (auto simp: write_all.simps [of w fd buf])
    with True "1.prems" have nr: "\<not> r < 0"
      and wa: "write_all w1 fd (drop (nat r) buf) = Ret u w'"
      by (auto simp: write_all.simps [of w fd buf] split: if_splits)
    from "1.IH" [OF True sw nr wa] sys_write_write_q [OF sw] show ?thesis by blast
  qed
qed

lemma write_all_Killed_write_q:
  "write_all w fd buf = Killed s w' \<Longrightarrow> WSigpipe \<in> set (write_q w)"
proof (induction w fd buf arbitrary: w' rule: write_all.induct)
  case (1 w fd buf)
  show ?case
  proof (cases "length buf > 0")
    case False
    with "1.prems" show ?thesis by (auto simp: write_all.simps [of w fd buf])
  next
    case True
    show ?thesis
    proof (cases "sys_write w fd buf")
      case (Ret r w1)
      with True "1.prems" have nr: "\<not> r < 0"
        and wa: "write_all w1 fd (drop (nat r) buf) = Killed s w'"
        by (auto simp: write_all.simps [of w fd buf] split: if_splits)
      from "1.IH" [OF True Ret nr wa] sys_write_write_q [OF Ret] show ?thesis by blast
    next
      case (Killed s1 w1)
      from sys_write_killed [OF Killed] show ?thesis by auto
    qed simp_all
  qed
qed

text \<open>\<open>perror\<close> returns with its event in the log, unless the next answer of the
  environment is \<open>SIGPIPE\<close>.\<close>

lemma perror_Ret:
  "perror w label = Ret u w' \<Longrightarrow>
   only_output w w' \<and> log w' = log w @ [Perror label (errno w)] \<and>
   (\<forall>q. write_q w \<noteq> WSigpipe # q) \<and> set (write_q w') \<subseteq> set (write_q w)"
  by (auto simp: perror_def only_output_def same_oracles_def
      split: list.splits write_result.splits)

lemma perror_Killed:
  "perror w label = Killed s w' \<Longrightarrow>
   s = SIGPIPE \<and> only_output w w' \<and> log w' = log w @ [Sigpipe STDERR_FILENO] \<and>
   (\<exists>q. write_q w = WSigpipe # q)"
  by (auto simp: perror_def only_output_def same_oracles_def
      split: list.splits write_result.splits)

lemma perror_not_Exit [simp]: "perror w label \<noteq> Exit c w'"
  by (auto simp: perror_def split: list.splits write_result.splits)

lemma perror_not_Fault [simp]: "perror w label \<noteq> Fault w'"
  by (auto simp: perror_def split: list.splits write_result.splits)

lemma perror_taken:
  "\<forall>q. write_q w \<noteq> WSigpipe # q \<Longrightarrow>
   \<exists>w'. perror w label = Ret () w' \<and> only_output w w' \<and>
     log w' = log w @ [Perror label (errno w)]"
  by (auto simp: perror_def only_output_def same_oracles_def
      split: list.splits write_result.splits)

lemma perror_quiet:
  "write_q w = [] \<Longrightarrow> perror w label = Ret () (w\<lparr>log := log w @ [Perror label (errno w)]\<rparr>)"
  by (simp add: perror_def)

lemma perror_frame: "only_output w (world_of (perror w label))"
  by (auto simp: perror_def only_output_def same_oracles_def
      split: list.splits write_result.splits)

lemma print_str_frame: "only_output w (world_of (print_str w fd s))"
  by (simp add: print_str_def write_all_frame)

lemma then_do_frame:
  assumes "only_output w (world_of x)"
    and "\<And>v w1. x = Ret v w1 \<Longrightarrow> only_output w1 (world_of (k w1))"
  shows "only_output w (world_of (then_do x k))"
proof (cases x)
  case (Ret v w1)
  with assms(1) assms(2) [OF Ret] show ?thesis by (auto intro: only_output_trans)
qed (use assms(1) in auto)

lemma print_unknown_command_frame: "only_output w (world_of (print_unknown_command w cmd))"
  unfolding print_unknown_command_def
  by (intro then_do_frame print_str_frame)

lemma report_status_frame: "only_output w (world_of (report_status w st))"
  unfolding report_status_def Let_def
  by (auto intro!: then_do_frame print_str_frame)

lemma handle_cd_stdin: "stdin_q (world_of (handle_cd w argc argv)) = stdin_q w"
proof -
  have "stdin_q (world_of (print_str w STDERR_FILENO s)) = stdin_q w" for s
    using print_str_frame [of w STDERR_FILENO s] by (simp add: only_output_def)
  moreover have "stdin_q (world_of (perror w1 l)) = stdin_q w1" for w1 l
    using perror_frame [of w1 l] by (simp add: only_output_def)
  ultimately show ?thesis
    by (auto simp: handle_cd_def sys_chdir_def
        split: option.splits if_splits sum.splits)
qed

lemma execute_external_stdin: "stdin_q (world_of (execute_external w argv)) = stdin_q w"
proof -
  have a: "stdin_q (world_of (print_unknown_command w c)) = stdin_q w" for c
    using print_unknown_command_frame [of w c] by (simp add: only_output_def)
  have b: "stdin_q (world_of (then_do (print_str w1 fd s) (\<lambda>w. report_status w st)))
     = stdin_q w1" for w1 fd s st
  proof -
    have "only_output w1 (world_of (then_do (print_str w1 fd s) (\<lambda>w. report_status w st)))"
      by (intro then_do_frame print_str_frame report_status_frame)
    then show ?thesis by (simp add: only_output_def)
  qed
  have c: "stdin_q (world_of (perror w1 l)) = stdin_q w1" for w1 l
    using perror_frame [of w1 l] by (simp add: only_output_def)
  show ?thesis
    by (auto simp: execute_external_def Let_def sys_fork_def sys_waitpid_def a b c
        split: option.splits if_splits prod.splits fork_result.splits wait_result.splits)
qed

lemma read_iter_Return_stdin:
  "read_iter s = RL_Return r s' \<Longrightarrow>
   length (stdin_q (rl_world s')) \<le> length (stdin_q (rl_world s)) \<and>
   (0 < r \<and> rl_len s = 0 \<longrightarrow> length (stdin_q (rl_world s')) < length (stdin_q (rl_world s)))"
  by (auto simp: read_iter_def rl_grow_def rl_finish_def sys_read_def sys_realloc_def Let_def
      store_at_def
      split: rl_step.splits prod.splits read_result.splits if_splits option.splits list.splits)

lemma read_loop_stdin:
  "read_loop s = Ret (r, l, c) w' \<Longrightarrow>
   length (stdin_q w') \<le> length (stdin_q (rl_world s)) \<and>
   (0 < r \<and> rl_len s = 0 \<longrightarrow> length (stdin_q w') < length (stdin_q (rl_world s)))"
proof (induction s rule: read_loop.induct)
  case (1 s)
  show ?case
  proof (cases "read_iter s")
    case (RL_Next s')
    with "1.prems" have "read_loop s' = Ret (r, l, c) w'" by (simp add: read_loop.simps [of s])
    from "1.IH" [OF RL_Next this] read_iter_shorter [OF RL_Next] show ?thesis by simp
  next
    case (RL_Return r' s')
    with "1.prems" have "r' = r" "w' = rl_world s'" by (simp_all add: read_loop.simps [of s])
    with read_iter_Return_stdin [OF RL_Return] show ?thesis by simp
  next
    case (RL_Fault s')
    with "1.prems" show ?thesis by (simp add: read_loop.simps [of s])
  qed
qed

lemma read_line_stdin:
  "read_line w line cap = Ret (r, l, c) w' \<Longrightarrow> 0 < r \<Longrightarrow>
   length (stdin_q w') < length (stdin_q w)"
  by (auto simp: read_line_def rl_enter_def sys_malloc_def dest!: read_loop_stdin
      split: if_splits option.splits prod.splits)

text \<open>The loop of \<open>main\<close>, with \<open>line\<close> and \<open>cap\<close> as they stand at its head. \<open>return 0\<close>
  is \<open>Ret 0\<close>; reading \<open>line[0]\<close> through a null pointer is a fault.\<close>

function main_loop :: "world \<Rightarrow> char list option \<Rightarrow> nat \<Rightarrow> int outcome" where
  "main_loop w line cap =
     (case print_str w STDOUT_FILENO PROMPT of
        Exit c w1 \<Rightarrow> Exit c w1
      | Killed s w1 \<Rightarrow> Killed s w1
      | Fault w1 \<Rightarrow> Fault w1
      | Ret _ w1 \<Rightarrow>
          (case read_line w1 line cap of
             Exit c w2 \<Rightarrow> Exit c w2
           | Killed s w2 \<Rightarrow> Killed s w2
           | Fault w2 \<Rightarrow> Fault w2
           | Ret (rr, line, cap) w2 \<Rightarrow>
               if rr < 0 then then_do (perror w2 ''read'') (\<lambda>w. Ret 0 w)
               else if rr = 0 then
                 then_do (print_str w2 STDOUT_FILENO ''\<newline>'') (\<lambda>w. Ret 0 w)
               else
                 (case line of
                    None \<Rightarrow> Fault w2
                  | Some buf \<Rightarrow>
                      if byte_at buf 0 = NUL then main_loop w2 line cap
                      else
                        (case parse_tokens buf MAX_ARGS of (buf, offs) \<Rightarrow>
                           let argc = int (length offs); argv = map (cstr_at buf) offs in
                           if argc = 0 then main_loop w2 (Some buf) cap
                           else if argv ! 0 = ''exit'' then Ret 0 w2
                           else if argv ! 0 = ''cd'' then
                             (case handle_cd w2 argc argv of
                                Ret _ w3 \<Rightarrow> main_loop w3 (Some buf) cap
                              | Exit c w3 \<Rightarrow> Exit c w3
                              | Killed s w3 \<Rightarrow> Killed s w3
                              | Fault w3 \<Rightarrow> Fault w3)
                           else
                             (case execute_external w2 argv of
                                Ret _ w3 \<Rightarrow> main_loop w3 (Some buf) cap
                              | Exit c w3 \<Rightarrow> Exit c w3
                              | Killed s w3 \<Rightarrow> Killed s w3
                              | Fault w3 \<Rightarrow> Fault w3)))))"
  by pat_completeness auto
termination
proof (relation "measure (\<lambda>(w, line, cap). length (stdin_q w))", goal_cases)
  case 1
  show ?case by simp
next
  case (2 w line cap u w1 res w2 rr rest line' cap' buf)
  from print_str_frame [of w STDOUT_FILENO PROMPT] 2(1) have "stdin_q w1 = stdin_q w"
    by (simp add: only_output_def)
  moreover from 2 have "read_line w1 line cap = Ret (rr, line', cap') w2" "0 < rr" by auto
  from read_line_stdin [OF this] have "length (stdin_q w2) < length (stdin_q w1)" .
  ultimately show ?case by simp
next
  case (3 w line cap u w1 res w2 rr rest line' cap' buf buf' offs argc argv)
  from print_str_frame [of w STDOUT_FILENO PROMPT] 3(1) have "stdin_q w1 = stdin_q w"
    by (simp add: only_output_def)
  moreover from 3 have "read_line w1 line cap = Ret (rr, line', cap') w2" "0 < rr" by auto
  from read_line_stdin [OF this] have "length (stdin_q w2) < length (stdin_q w1)" .
  ultimately show ?case by simp
next
  case (4 w line cap u w1 res w2 rr rest line' cap' buf buf' offs argc argv u' w3)
  from print_str_frame [of w STDOUT_FILENO PROMPT] 4(1) have "stdin_q w1 = stdin_q w"
    by (simp add: only_output_def)
  moreover from 4 have "read_line w1 line cap = Ret (rr, line', cap') w2" "0 < rr" by auto
  from read_line_stdin [OF this] have "length (stdin_q w2) < length (stdin_q w1)" .
  moreover from 4 have "handle_cd w2 argc argv = Ret u' w3" by simp
  with handle_cd_stdin [of w2 argc argv] have "stdin_q w3 = stdin_q w2" by simp
  ultimately show ?case by simp
next
  case (5 w line cap u w1 res w2 rr rest line' cap' buf buf' offs argc argv u' w3)
  from print_str_frame [of w STDOUT_FILENO PROMPT] 5(1) have "stdin_q w1 = stdin_q w"
    by (simp add: only_output_def)
  moreover from 5 have "read_line w1 line cap = Ret (rr, line', cap') w2" "0 < rr" by auto
  from read_line_stdin [OF this] have "length (stdin_q w2) < length (stdin_q w1)" .
  moreover from 5 have "execute_external w2 argv = Ret u' w3" by simp
  with execute_external_stdin [of w2 argv] have "stdin_q w3 = stdin_q w2" by simp
  ultimately show ?case by simp
qed

declare main_loop.simps [simp del]

definition main :: "world \<Rightarrow> int outcome" where
  "main w = main_loop w None 0"

subsection \<open>Facts about the command search\<close>

lemma put_path_fits:
  assumes "length dir + 1 + length cmd + 1 \<le> length buf"
  shows "put_path buf dir cmd =
    Some (dir @ CHR ''/'' # cmd @ NUL # drop (length dir + 1 + length cmd + 1) buf)"
proof -
  let ?n = "length dir"
  let ?m = "length cmd"
  have 1: "memcpy_at buf 0 dir = Some (dir @ drop ?n buf)"
    using assms by (simp add: memcpy_at_def)
  have 2: "store_at (dir @ drop ?n buf) ?n (CHR ''/'') = Some (dir @ CHR ''/'' # drop (?n + 1) buf)"
    using assms by (simp add: store_at_def list_update_append upd_conv_take_nth_drop drop_Suc
        flip: Cons_nth_drop_Suc)
  have 3: "memcpy_at (dir @ CHR ''/'' # drop (?n + 1) buf) (?n + 1) cmd
      = Some (dir @ CHR ''/'' # cmd @ drop (?n + 1 + ?m) buf)"
    using assms by (simp add: memcpy_at_def add.commute)
  have 4: "store_at (dir @ CHR ''/'' # cmd @ drop (?n + 1 + ?m) buf) (?n + 1 + ?m) NUL
      = Some (dir @ CHR ''/'' # cmd @ NUL # drop (?n + 1 + ?m + 1) buf)"
    using assms by (simp add: store_at_def list_update_append upd_conv_take_nth_drop drop_Suc
        flip: Cons_nth_drop_Suc)
  show ?thesis
    unfolding put_path_def by (simp only: 1 2 3 4 Option.bind.simps)
qed

lemma put_path_length:
  "put_path buf dir cmd = Some b \<Longrightarrow> length b = length buf"
  by (auto simp: put_path_def memcpy_at_def store_at_def split: if_splits Option.bind_splits)

lemma cstr_at_path:
  assumes "NUL \<notin> set dir" "NUL \<notin> set cmd"
  shows "cstr_at (dir @ CHR ''/'' # cmd @ NUL # rest) 0 = dir @ CHR ''/'' # cmd"
proof -
  have "takeWhile (\<lambda>c. c \<noteq> NUL) ((dir @ CHR ''/'' # cmd) @ NUL # rest) = dir @ CHR ''/'' # cmd"
    by (rule takeWhile_tail [THEN trans, OF _ takeWhile_eq_all_conv [THEN iffD2]])
       (use assms in auto)
  then show ?thesis by (simp add: cstr_at_def)
qed

lemma try_dir_fits:
  assumes "length dir + 1 + length cmd + 1 \<le> out_sz" "length out_path = out_sz"
    "NUL \<notin> set dir" "NUL \<notin> set cmd"
  shows "\<exists>b. try_dir w dir cmd out_path out_sz = Some (x_ok w (dir @ CHR ''/'' # cmd), b) \<and>
         length b = out_sz \<and> cstr_at b 0 = dir @ CHR ''/'' # cmd"
  using assms put_path_fits [of dir cmd out_path]
  by (simp add: try_dir_def is_executable_def cstr_at_path)

lemma try_dir_skip:
  "length dir + 1 + length cmd + 1 > out_sz \<Longrightarrow>
   try_dir w dir cmd out_path out_sz = Some (False, out_path)"
  by (simp add: try_dir_def)

lemma try_dir_not_None:
  "length out_path = out_sz \<Longrightarrow> try_dir w dir cmd out_path out_sz \<noteq> None"
  using put_path_fits [of dir cmd out_path] by (auto simp: try_dir_def Let_def)

lemma try_dir_length:
  "try_dir w dir cmd out_path out_sz = Some (r, b) \<Longrightarrow> length b = length out_path"
  by (auto simp: try_dir_def Let_def put_path_length split: if_splits option.splits)


lemma find_command_path_not_None:
  assumes "length out_path = out_sz"
  shows "find_command_path w cmd out_path out_sz \<noteq> None"
proof -
  have a: "try_dir w d cmd b out_sz \<noteq> None" if "length b = out_sz" for d b
    using that by (rule try_dir_not_None)
  show ?thesis
  proof (cases "home_env w")
    case None
    with a [OF assms, of "''/bin''"] show ?thesis
      by (auto simp: find_command_path_def split: option.splits bool.splits)
  next
    case (Some h)
    show ?thesis
    proof (cases "h = []")
      case True
      with Some a [OF assms, of "''/bin''"] show ?thesis
        by (auto simp: find_command_path_def split: option.splits bool.splits)
    next
      case False
      from a [OF assms, of h] obtain r b where t: "try_dir w h cmd out_path out_sz = Some (r, b)"
        by auto
      from try_dir_length [OF t] assms have "length b = out_sz" by simp
      from a [OF this, of "''/bin''"] t Some False show ?thesis
        by (auto simp: find_command_path_def split: option.splits bool.splits)
    qed
  qed
qed


text \<open>
  The resolver as the specification words it: the search path is \<open>$HOME\<close> (left out when
  the variable is unset or empty) and then \<open>/bin\<close>, and a candidate is the directory, a
  slash and the command name.
\<close>

definition candidates :: "world \<Rightarrow> string \<Rightarrow> string list" where
  "candidates w name =
     (case home_env w of
        None \<Rightarrow> []
      | Some home \<Rightarrow> if home = [] then [] else [home @ ''/'' @ name])
     @ [''/bin'' @ ''/'' @ name]"

lemma try_dir_cases:
  assumes "length out_path = out_sz" "NUL \<notin> set dir" "NUL \<notin> set cmd"
  shows "\<exists>ok b. try_dir w dir cmd out_path out_sz = Some (ok, b) \<and>
         ok = (length (dir @ ''/'' @ cmd) + 1 \<le> out_sz \<and> x_ok w (dir @ ''/'' @ cmd)) \<and>
         length b = out_sz \<and> (ok \<longrightarrow> cstr_at b 0 = dir @ ''/'' @ cmd)"
proof (cases "length dir + 1 + length cmd + 1 \<le> out_sz")
  case True
  from try_dir_fits [OF True assms, of w] True show ?thesis by auto
next
  case False
  then have "try_dir w dir cmd out_path out_sz = Some (False, out_path)"
    by (simp add: try_dir_skip)
  with False assms(1) show ?thesis by auto
qed

lemma find_command_path_spec:
  assumes len: "length out_path = out_sz" and nul: "NUL \<notin> set cmd"
    and home: "\<And>h. home_env w = Some h \<Longrightarrow> NUL \<notin> set h"
  shows "\<exists>r b. find_command_path w cmd out_path out_sz = Some (r, b) \<and> length b = out_sz \<and>
     (case find (\<lambda>p. length p + 1 \<le> out_sz \<and> x_ok w p) (candidates w cmd) of
        None \<Rightarrow> r = 0
      | Some p \<Rightarrow> r = 1 \<and> cstr_at b 0 = p)"
proof -
  let ?P = "\<lambda>p. length p + 1 \<le> out_sz \<and> x_ok w p"
  let ?bin = "''/bin'' @ ''/'' @ cmd"
  have bin: "\<exists>ok b'. try_dir w ''/bin'' cmd b out_sz = Some (ok, b') \<and> ok = ?P ?bin \<and>
         length b' = out_sz \<and> (ok \<longrightarrow> cstr_at b' 0 = ?bin)"
    if "length b = out_sz" for b
    by (rule try_dir_cases [OF that _ nul]) simp
  have tail: "\<exists>r b'. (case try_dir w ''/bin'' cmd b out_sz of
             None \<Rightarrow> None
           | Some (True, b') \<Rightarrow> Some (1, b')
           | Some (False, b') \<Rightarrow> Some (0, b')) = Some (r, b') \<and> length b' = out_sz \<and>
        (case find ?P [?bin] of None \<Rightarrow> r = 0 | Some p \<Rightarrow> r = 1 \<and> cstr_at b' 0 = p)"
    if "length b = out_sz" for b
  proof -
    from bin [OF that] obtain ok b' where
      t: "try_dir w ''/bin'' cmd b out_sz = Some (ok, b')" and ok: "ok = ?P ?bin"
      and l: "length b' = out_sz" and c: "ok \<longrightarrow> cstr_at b' 0 = ?bin" by blast
    show ?thesis
    proof (cases ok)
      case True
      from t True have e1: "try_dir w ''/bin'' cmd b out_sz = Some (True, b')" by simp
      from ok True have p: "?P ?bin" by blast
      have e2: "find ?P [?bin] = Some ?bin" by (simp only: find.simps p if_True simp_thms)
      from c True have "cstr_at b' 0 = ?bin" by simp
      with l e1 show ?thesis unfolding e2 by simp
    next
      case False
      from t False have e1: "try_dir w ''/bin'' cmd b out_sz = Some (False, b')" by simp
      from ok False have np: "\<not> ?P ?bin" by blast
      have e2: "find ?P [?bin] = None" by (simp only: find.simps np if_False simp_thms)
      from l e1 show ?thesis unfolding e2 by simp
    qed
  qed
  show ?thesis
  proof (cases "\<exists>h. home_env w = Some h \<and> h \<noteq> []")
    case False
    then have c: "candidates w cmd = [?bin]"
      by (auto simp: candidates_def split: option.splits)
    from False have f: "find_command_path w cmd out_path out_sz =
        (case try_dir w ''/bin'' cmd out_path out_sz of
             None \<Rightarrow> None
           | Some (True, b') \<Rightarrow> Some (1, b')
           | Some (False, b') \<Rightarrow> Some (0, b'))"
      by (auto simp: find_command_path_def split: option.splits)
    from tail [OF len] show ?thesis unfolding f c .
  next
    case True
    then obtain h where h: "home_env w = Some h" "h \<noteq> []" by blast
    then have c: "candidates w cmd = [h @ ''/'' @ cmd, ?bin]"
      by (simp add: candidates_def)
    from try_dir_cases [OF len home [OF h(1)] nul, of w] obtain ok b where
      t: "try_dir w h cmd out_path out_sz = Some (ok, b)" and ok: "ok = ?P (h @ ''/'' @ cmd)"
      and l: "length b = out_sz" and cs: "ok \<longrightarrow> cstr_at b 0 = h @ ''/'' @ cmd"
      by blast
    show ?thesis
    proof (cases ok)
      case True
      with h t have e1: "find_command_path w cmd out_path out_sz = Some (1, b)"
        by (simp add: find_command_path_def)
      from True ok have p: "?P (h @ ''/'' @ cmd)" by blast
      have e2: "find ?P (candidates w cmd) = Some (h @ ''/'' @ cmd)"
        unfolding c by (simp only: find.simps p if_True simp_thms)
      from cs True have "cstr_at b 0 = h @ ''/'' @ cmd" by simp
      with l show ?thesis unfolding e1 e2 by simp
    next
      case False
      with h t have e1: "find_command_path w cmd out_path out_sz =
        (case try_dir w ''/bin'' cmd b out_sz of
             None \<Rightarrow> None
           | Some (True, b') \<Rightarrow> Some (1, b')
           | Some (False, b') \<Rightarrow> Some (0, b'))"
        by (simp add: find_command_path_def)
      from False ok have np: "\<not> ?P (h @ ''/'' @ cmd)" by blast
      have e2: "find ?P (candidates w cmd) = find ?P [?bin]"
        unfolding c by (simp only: find.simps np if_False simp_thms)
      from tail [OF l] show ?thesis unfolding e1 e2 .
    qed
  qed
qed

subsection \<open>Facts about printing\<close>

text \<open>
  \<open>prints fd s w out\<close>: \<open>out\<close> is what becomes of printing \<open>s\<close> on \<open>fd\<close> from \<open>w\<close>.
  Either the call returns, all of \<open>s\<close> has been written to \<open>fd\<close> and nothing else
  changed; or a write failed and the process left with status 1; or a write raised
  \<open>SIGPIPE\<close> and the process was killed.
\<close>

definition prints :: "nat \<Rightarrow> string \<Rightarrow> world \<Rightarrow> unit outcome \<Rightarrow> bool" where
  "prints fd s w out =
     (case out of
        Ret _ w' \<Rightarrow> only_output w w' \<and> errno w' = errno w \<and>
          set (write_q w') \<subseteq> set (write_q w) \<and>
          (\<exists>es. log w' = log w @ es \<and> wrote_only fd es \<and> written fd es = s)
      | Exit c w' \<Rightarrow> c = 1 \<and> only_output w w' \<and>
          (\<exists>es. log w' = log w @ es @ [WriteFailed fd] \<and> wrote_only fd es)
      | Killed g w' \<Rightarrow> g = SIGPIPE \<and> only_output w w' \<and> WSigpipe \<in> set (write_q w) \<and>
          (\<exists>es. log w' = log w @ es @ [Sigpipe fd] \<and> wrote_only fd es)
      | Fault _ \<Rightarrow> False)"

lemma prints_print_str: "prints fd s w (print_str w fd s)"
proof (cases "write_all w fd s")
  case (Ret u w')
  with write_all_Ret [OF Ret] write_all_write_q [OF Ret] show ?thesis
    by (simp add: prints_def print_str_def)
next
  case (Exit c w')
  with write_all_Exit [OF Exit] show ?thesis by (simp add: prints_def print_str_def)
next
  case (Killed g w')
  with write_all_Killed [OF Killed] write_all_Killed_write_q [OF Killed] show ?thesis
    by (simp add: prints_def print_str_def)
next
  case (Fault w')
  with write_all_not_Fault show ?thesis by blast
qed

lemma prints_then_do:
  assumes "prints fd s w x" and "\<And>w1. prints fd t w1 (k w1)"
  shows "prints fd (s @ t) w (then_do x k)"
proof (cases x)
  case (Ret u w1)
  with assms(1) obtain es where 1: "only_output w w1" "errno w1 = errno w"
    "log w1 = log w @ es" "wrote_only fd es" "written fd es = s"
    and q1: "set (write_q w1) \<subseteq> set (write_q w)"
    by (auto simp: prints_def)
  show ?thesis
  proof (cases "k w1")
    case (Ret u' w2)
    with assms(2) [of w1] obtain es' where 2: "only_output w1 w2" "errno w2 = errno w1"
      "log w2 = log w1 @ es'" "wrote_only fd es'" "written fd es' = t"
      and q2: "set (write_q w2) \<subseteq> set (write_q w1)"
      by (auto simp: prints_def)
    have "log w2 = log w @ (es @ es') \<and> wrote_only fd (es @ es') \<and> written fd (es @ es') = s @ t"
      using 1 2 by simp
    moreover have "only_output w w2" using 1 2 only_output_trans by blast
    moreover have "errno w2 = errno w" using 1 2 by simp
    moreover have "set (write_q w2) \<subseteq> set (write_q w)" using q1 q2 by blast
    ultimately show ?thesis using Ret \<open>x = Ret u w1\<close> unfolding prints_def by auto
  next
    case (Exit c w2)
    with assms(2) [of w1] obtain es' where 2: "c = 1" "only_output w1 w2"
      "log w2 = log w1 @ es' @ [WriteFailed fd]" "wrote_only fd es'"
      by (auto simp: prints_def)
    have "log w2 = log w @ (es @ es') @ [WriteFailed fd] \<and> wrote_only fd (es @ es')"
      using 1 2 by simp
    moreover have "only_output w w2" using 1 2 only_output_trans by blast
    ultimately show ?thesis using Exit 2(1) \<open>x = Ret u w1\<close> unfolding prints_def by auto
  next
    case (Killed g w2)
    with assms(2) [of w1] obtain es' where 2: "g = SIGPIPE" "only_output w1 w2"
      "log w2 = log w1 @ es' @ [Sigpipe fd]" "wrote_only fd es'"
      and q2: "WSigpipe \<in> set (write_q w1)"
      by (auto simp: prints_def)
    have "log w2 = log w @ (es @ es') @ [Sigpipe fd] \<and> wrote_only fd (es @ es')"
      using 1 2 by simp
    moreover have "only_output w w2" using 1 2 only_output_trans by blast
    moreover have "WSigpipe \<in> set (write_q w)" using q1 q2 by blast
    ultimately show ?thesis using Killed 2(1) \<open>x = Ret u w1\<close> unfolding prints_def by auto
  next
    case (Fault w2)
    with assms(2) [of w1] show ?thesis by (simp add: prints_def)
  qed
next
  case (Exit c w1)
  with assms(1) show ?thesis by (simp add: prints_def)
next
  case (Killed g w1)
  with assms(1) show ?thesis by (simp add: prints_def)
next
  case (Fault w1)
  with assms(1) show ?thesis by (simp add: prints_def)
qed

lemma prints_unknown_command:
  "prints STDERR_FILENO ('']'' @ cmd @ '']: Unknown Command[\<newline>'') w (print_unknown_command w cmd)"
  unfolding print_unknown_command_def
  by (intro prints_then_do prints_print_str)


text \<open>The decimal numeral of a number, most significant digit first.\<close>

function decimal :: "nat \<Rightarrow> string" where
  "decimal n =
     (if n < 10 then [char_of (48 + n)]
      else decimal (n div 10) @ [char_of (48 + n mod 10)])"
  by pat_completeness auto
termination
  by (relation "measure (\<lambda>n. n)") auto

declare decimal.simps [simp del]

lemma digit_chars:
  "char_of (48 :: nat) = CHR ''0''" "char_of (49 :: nat) = CHR ''1''"
  "char_of (50 :: nat) = CHR ''2''" "char_of (51 :: nat) = CHR ''3''"
  "char_of (52 :: nat) = CHR ''4''" "char_of (53 :: nat) = CHR ''5''"
  "char_of (54 :: nat) = CHR ''6''" "char_of (55 :: nat) = CHR ''7''"
  "char_of (56 :: nat) = CHR ''8''" "char_of (57 :: nat) = CHR ''9''"
  by code_simp+

lemma u32_tmp_decimal:
  "0 < x \<Longrightarrow> x < 10 ^ (32 - length tmp) \<Longrightarrow> rev (u32_tmp x tmp) = decimal x @ rev tmp"
proof (induction x tmp rule: u32_tmp.induct)
  case (1 x tmp)
  have lt: "length tmp < 32"
  proof (rule ccontr)
    assume "\<not> length tmp < 32"
    then have "32 - length tmp = 0" by simp
    with "1.prems" show False by simp
  qed
  let ?tmp = "tmp @ [char_of (48 + x mod 10)]"
  have step: "u32_tmp x tmp = u32_tmp (x div 10) ?tmp"
    using "1.prems"(1) lt by (subst u32_tmp.simps) simp
  show ?case
  proof (cases "x < 10")
    case True
    then have "u32_tmp (x div 10) ?tmp = ?tmp" by (subst u32_tmp.simps) simp
    with step True show ?thesis by (simp add: decimal.simps [of x])
  next
    case False
    then have pos: "0 < x div 10" by simp
    have "10 ^ (32 - length tmp) = (10::nat) * 10 ^ (32 - length ?tmp)"
      using lt by (simp add: Suc_diff_Suc flip: power_Suc)
    with "1.prems"(2) have "x div 10 < 10 ^ (32 - length ?tmp)"
      by (simp add: less_mult_imp_div_less mult.commute)
    from "1.IH" [OF _ pos this] "1.prems"(1) lt
    have "rev (u32_tmp (x div 10) ?tmp) = decimal (x div 10) @ rev ?tmp" by simp
    with step False show ?thesis by (simp add: decimal.simps [of x])
  qed
qed

lemma u32_to_str_decimal: "x < 10 ^ 32 \<Longrightarrow> u32_to_str x = decimal x"
proof (cases "x = 0")
  case True
  then show ?thesis by (simp add: u32_to_str_def decimal.simps [of 0] digit_chars)
next
  case False
  assume "x < 10 ^ 32"
  with False u32_tmp_decimal [of x "[]"] show ?thesis by (simp add: u32_to_str_def)
qed


text \<open>The line that tells how the child ended, as the specification lists the cases.\<close>

definition status_line :: "int \<Rightarrow> string" where
  "status_line status =
     (if WIFEXITED status
      then ''Command finished. Return code: '' @ decimal (nat (WEXITSTATUS status)) @ ''\<newline>''
      else if WIFSIGNALED status
      then ''Command terminated by signal: '' @ decimal (nat (WTERMSIG status)) @ ''\<newline>''
      else ''Command finished with unknown status.\<newline>'')"

lemma WEXITSTATUS_range: "0 \<le> WEXITSTATUS st \<and> WEXITSTATUS st \<le> 255"
proof -
  have "0 \<le> st AND 0xff00" by simp
  then have "0 \<le> (st AND 0xff00) div 256" by (simp add: pos_imp_zdiv_nonneg_iff)
  moreover have "st AND 0xff00 \<le> 0xff00" by (rule AND_upper2) simp
  then have "(st AND 0xff00) div 256 \<le> 0xff00 div 256" by (rule zdiv_mono1) simp
  ultimately show ?thesis
    by (simp add: WEXITSTATUS_def drop_bit_eq_div)
qed

lemma WTERMSIG_range: "0 \<le> WTERMSIG st \<and> WTERMSIG st \<le> 127"
proof -
  have "0 \<le> st AND 0x7f" by simp
  moreover have "st AND 0x7f \<le> 0x7f" by (rule AND_upper2) simp
  ultimately show ?thesis by (simp add: WTERMSIG_def)
qed

lemma prints_report_status:
  "prints STDOUT_FILENO (status_line st) w (report_status w st)"
proof -
  have e: "u32_to_str (nat (WEXITSTATUS st mod 2 ^ 32)) = decimal (nat (WEXITSTATUS st))"
    using WEXITSTATUS_range [of st] by (subst u32_to_str_decimal) auto
  have s: "u32_to_str (nat (WTERMSIG st mod 2 ^ 32)) = decimal (nat (WTERMSIG st))"
    using WTERMSIG_range [of st] by (subst u32_to_str_decimal) auto
  have a: "prints STDOUT_FILENO (x @ y @ z) w
      (then_do (print_str w STDOUT_FILENO x) (\<lambda>w.
       then_do (print_str w STDOUT_FILENO y) (\<lambda>w. print_str w STDOUT_FILENO z)))" for x y z
    by (intro prints_then_do prints_print_str)
  show ?thesis
  proof (cases "WIFEXITED st")
    case True
    have "report_status w st =
       then_do (print_str w STDOUT_FILENO ''Command finished. Return code: '') (\<lambda>w.
       then_do (print_str w STDOUT_FILENO (decimal (nat (WEXITSTATUS st)))) (\<lambda>w.
         print_str w STDOUT_FILENO ''\<newline>''))"
      by (simp only: report_status_def Let_def e True if_True)
    moreover have "status_line st =
       ''Command finished. Return code: '' @ decimal (nat (WEXITSTATUS st)) @ ''\<newline>''"
      by (simp only: status_line_def True if_True)
    ultimately show ?thesis by (simp only: a)
  next
    case False
    show ?thesis
    proof (cases "WIFSIGNALED st")
      case True
      have "report_status w st =
         then_do (print_str w STDOUT_FILENO ''Command terminated by signal: '') (\<lambda>w.
         then_do (print_str w STDOUT_FILENO (decimal (nat (WTERMSIG st)))) (\<lambda>w.
           print_str w STDOUT_FILENO ''\<newline>''))"
        by (simp only: report_status_def Let_def s True False if_True if_False)
      moreover have "status_line st =
         ''Command terminated by signal: '' @ decimal (nat (WTERMSIG st)) @ ''\<newline>''"
        by (simp only: status_line_def True False if_True if_False)
      ultimately show ?thesis by (simp only: a)
    next
      case nsig: False
      have "report_status w st =
          print_str w STDOUT_FILENO ''Command finished with unknown status.\<newline>''"
        by (simp only: report_status_def Let_def nsig False if_False)
      moreover have "status_line st = ''Command finished with unknown status.\<newline>''"
        by (simp only: status_line_def nsig False if_False)
      ultimately show ?thesis by (simp only: prints_print_str)
    qed
  qed
qed


lemma prints_facts:
  assumes "prints fd s w out"
  shows "out \<noteq> Fault w'"
    and "only_output w (world_of out)"
    and "out = Ret u w' \<Longrightarrow> written fd (log w') = written fd (log w) @ s"
    and "out = Ret u w' \<Longrightarrow> fd' \<noteq> fd \<Longrightarrow> written fd' (log w') = written fd' (log w)"
    and "out = Ret u w' \<Longrightarrow> write_failed (log w') = write_failed (log w)"
    and "out = Ret u w' \<Longrightarrow> errno w' = errno w"
    and "out = Exit c w' \<Longrightarrow> c = 1 \<and> write_failed (log w')"
    and "out = Killed g w' \<Longrightarrow> g = SIGPIPE \<and> sigpipe_raised (log w')"
    and "out = Ret u w' \<Longrightarrow> sigpipe_raised (log w') = sigpipe_raised (log w)"
    and "out = Ret u w' \<Longrightarrow> set (write_q w') \<subseteq> set (write_q w)"
    and "out = Killed g w' \<Longrightarrow> WSigpipe \<in> set (write_q w)"
  using assms
  by (auto simp: prints_def wrote_only_other wrote_only_not_failed wrote_only_not_sigpipe
      split: outcome.splits)

lemma execute_external_unknown:
  assumes "find_command_path w (argv ! 0) (map (fresh_mem w) [0..<4096]) 4096 = Some (0, pb)"
  shows "execute_external w argv = print_unknown_command w (argv ! 0)"
  using assms by (simp add: execute_external_def)

lemma execute_external_waited:
  assumes "find_command_path w (argv ! 0) (map (fresh_mem w) [0..<4096]) 4096 = Some (r, pb)"
    and "r \<noteq> 0" and "fork_res w (fork_calls w) = ForkParent pid"
    and "wait_res w (fork_calls w) = WaitOk"
  shows "execute_external w argv =
     then_do (print_str
        (w\<lparr>fork_calls := fork_calls w + 1,
           children := children w @
             [(pid, child_after_fork w (fork_calls w) (cstr_at pb 0) argv)]\<rparr>)
        STDOUT_FILENO ''Command executed successfully.\<newline>'')
       (\<lambda>w'. report_status w'
          (wait_status (child_after_fork w (fork_calls w) (cstr_at pb 0) argv)))"
  using assms
  by (simp add: execute_external_def sys_fork_def sys_waitpid_def child_after_fork_def Let_def)

lemma execute_external_wait_failed:
  assumes "find_command_path w (argv ! 0) (map (fresh_mem w) [0..<4096]) 4096 = Some (r, pb)"
    and "r \<noteq> 0" and "fork_res w (fork_calls w) = ForkParent pid"
    and "wait_res w (fork_calls w) = WaitFails e"
  shows "execute_external w argv =
     perror (w\<lparr>fork_calls := fork_calls w + 1,
           children := children w @
             [(pid, child_after_fork w (fork_calls w) (cstr_at pb 0) argv)],
           errno := e\<rparr>) ''waitpid''"
  using assms
  by (simp add: execute_external_def sys_fork_def sys_waitpid_def child_after_fork_def Let_def)

lemma execute_external_fork_failed:
  assumes "find_command_path w (argv ! 0) (map (fresh_mem w) [0..<4096]) 4096 = Some (r, pb)"
    and "r \<noteq> 0" and "fork_res w (fork_calls w) = ForkFails e"
  shows "execute_external w argv =
     perror (w\<lparr>fork_calls := fork_calls w + 1, errno := e\<rparr>) ''fork''"
  using assms
  by (simp add: execute_external_def sys_fork_def Let_def)

lemma write_all_quiet:
  "write_q w = [] \<Longrightarrow>
   write_all w fd buf = Ret () (if buf = [] then w else w\<lparr>log := log w @ [Wrote fd buf]\<rparr>)"
  by (subst write_all.simps, simp add: sys_write_def) (subst write_all.simps, simp)

lemma print_str_quiet:
  "write_q w = [] \<Longrightarrow>
   print_str w fd s = Ret () (if s = [] then w else w\<lparr>log := log w @ [Wrote fd s]\<rparr>)"
  by (simp add: print_str_def write_all_quiet)

section \<open>Example environments\<close>

text \<open>Environments for the examples: no input, every write is taken whole, \<open>HOME\<close> is
  \<open>/home/u\<close>, \<open>/bin/ls\<close> is the one executable file, every directory change succeeds,
  memory is granted up to a mebibyte, fork gives pid 7, the program exits with code 3.\<close>

definition demo_world :: world where
  "demo_world =
     \<lparr>stdin_q = [], write_q = [], home_env = Some ''/home/u'',
      x_ok = (\<lambda>p. p = ''/bin/ls''), chdir_res = (\<lambda>c t. Inr t), cwd = ''/'',
      alloc_ok = (\<lambda>n. n \<le> 1048576), fresh_mem = (\<lambda>n. CHR ''?''),
      fork_res = (\<lambda>n. ForkParent 7), exec_res = (\<lambda>n p a. ExecRuns 768),
      wait_res = (\<lambda>n. WaitOk), fork_calls = 0, children = [], errno = 0, log = []\<rparr>"



section \<open>The claims\<close>



lemma find_none:
  assumes "NUL \<notin> set cmd" "\<And>h. home_env w = Some h \<Longrightarrow> NUL \<notin> set h"
    and "\<forall>p \<in> set (candidates w cmd). \<not> x_ok w p"
  shows "\<exists>b. find_command_path w cmd (map (fresh_mem w) [0..<4096]) 4096 = Some (0, b)"
proof -
  have "find (\<lambda>p. length p + 1 \<le> 4096 \<and> x_ok w p) (candidates w cmd) = None"
    using assms(3) by (simp add: find_None_iff)
  moreover have "\<exists>r b. find_command_path w cmd (map (fresh_mem w) [0..<4096]) 4096
        = Some (r, b) \<and> length b = 4096 \<and>
     (case find (\<lambda>p. length p + 1 \<le> 4096 \<and> x_ok w p) (candidates w cmd) of
        None \<Rightarrow> r = 0
      | Some p \<Rightarrow> r = 1 \<and> cstr_at b 0 = p)"
    by (rule find_command_path_spec) (simp_all add: assms)
  ultimately show ?thesis by auto
qed

text \<open>
  C5 speaks of every command name that resolves to no executable, and the specification
  counts a directory among them. \<open>is_executable\<close> (lines 136-138) is \<open>access(path, X_OK)\<close>
  and nothing else, and a directory that may be searched passes it. In the environment
  below \<open>/home/u/..\<close> and \<open>/bin/..\<close> are such directories: \<open>access\<close> answers 0 for them and
  \<open>execv\<close> refuses them with \<open>EACCES\<close>. For the command \<open>..\<close> the shell forks; the child
  fails in \<open>execv\<close> and leaves with 127; the parent prints the banner and the return code,
  and no unknown-command message.
\<close>

definition dotdot_world :: world where
  "dotdot_world =
     demo_world\<lparr>x_ok := \<lambda>p. p = ''/home/u/..'' \<or> p = ''/bin/..'',
                exec_res := \<lambda>n p a. ExecFails 13\<rparr>"

theorem directory_is_spawned_counterexample:
  "execute_external dotdot_world [''..''] =
     Ret () (dotdot_world\<lparr>fork_calls := 1,
       children := [(7, ChildExited [Perror ''exec'' 13] 127)],
       log := [Wrote STDOUT_FILENO ''Command executed successfully.\<newline>'',
               Wrote STDOUT_FILENO ''Command finished. Return code: '',
               Wrote STDOUT_FILENO ''127'', Wrote STDOUT_FILENO ''\<newline>'']\<rparr>) \<and>
   candidates dotdot_world ''..'' = [''/home/u/..'', ''/bin/..''] \<and>
   exec_res dotdot_world 0 ''/home/u/..'' [''..''] = ExecFails 13 \<and>
   exec_res dotdot_world 0 ''/bin/..'' [''..''] = ExecFails 13"
proof -
  have cs: "candidates dotdot_world ''..'' = [''/home/u/..'', ''/bin/..'']"
    by (simp add: candidates_def dotdot_world_def demo_world_def)
  have "\<exists>r b. find_command_path dotdot_world ''..''
        (map (fresh_mem dotdot_world) [0..<4096]) 4096 = Some (r, b) \<and> length b = 4096 \<and>
     (case find (\<lambda>p. length p + 1 \<le> 4096 \<and> x_ok dotdot_world p) (candidates dotdot_world ''..'') of
        None \<Rightarrow> r = 0
      | Some p \<Rightarrow> r = 1 \<and> cstr_at b 0 = p)"
    by (rule find_command_path_spec) (auto simp: dotdot_world_def demo_world_def)
  then obtain b where
    f: "find_command_path dotdot_world ([''..''] ! 0)
       (map (fresh_mem dotdot_world) [0..<4096]) 4096 = Some (1, b)"
    and b: "cstr_at b 0 = ''/home/u/..''"
    unfolding cs by (auto simp: dotdot_world_def)
  have k: "fork_res dotdot_world (fork_calls dotdot_world) = ForkParent 7"
    "wait_res dotdot_world (fork_calls dotdot_world) = WaitOk"
    by (simp_all add: dotdot_world_def demo_world_def)
  have c: "child_after_fork dotdot_world (fork_calls dotdot_world) (cstr_at b 0) [''..'']
      = ChildExited [Perror ''exec'' 13] 127"
    by (simp add: child_after_fork_def b dotdot_world_def)
  have ws: "wait_status (ChildExited [Perror ''exec'' 13] 127) = 32512"
    by (simp add: push_bit_eq_mult)
  have x: "WIFEXITED 32512" "WEXITSTATUS 32512 = 127"
    by (simp_all add: WIFEXITED_def WTERMSIG_def WEXITSTATUS_def drop_bit_eq_div)
  have nz: "(1::int) \<noteq> 0" by simp
  have d: "u32_to_str 127 = ''127''"
    by (simp add: u32_to_str_decimal decimal.simps [of 127] decimal.simps [of 12]
        decimal.simps [of "Suc 0"] digit_chars)
  have e: "execute_external dotdot_world [''..''] =
     Ret () (dotdot_world\<lparr>fork_calls := 1,
       children := [(7, ChildExited [Perror ''exec'' 13] 127)],
       log := [Wrote STDOUT_FILENO ''Command executed successfully.\<newline>'',
               Wrote STDOUT_FILENO ''Command finished. Return code: '',
               Wrote STDOUT_FILENO ''127'', Wrote STDOUT_FILENO ''\<newline>'']\<rparr>)"
    unfolding execute_external_waited [OF f nz k] c ws
    by (simp add: report_status_def x d print_str_quiet dotdot_world_def demo_world_def)
  have "exec_res dotdot_world 0 ''/home/u/..'' [''..''] = ExecFails 13"
    "exec_res dotdot_world 0 ''/bin/..'' [''..''] = ExecFails 13"
    by (simp_all add: dotdot_world_def)
  with e cs show ?thesis by blast
qed

text \<open>
  C5, amended. For a command name none of whose candidate paths passes the permission
  test \<open>access(path, X_OK)\<close>, \<open>execute_external\<close> makes no call of \<open>fork\<close> and creates no
  child, and when its writes are taken it has put exactly \<open>]name]: Unknown Command[\<close>
  and a newline on standard error and nothing on standard output. (The command name and
  \<open>$HOME\<close> are C strings: they hold no NUL byte.)
\<close>

theorem unknown_command_reported:
  assumes "NUL \<notin> set (argv ! 0)" and "\<And>h. home_env w = Some h \<Longrightarrow> NUL \<notin> set h"
    and "\<forall>p \<in> set (candidates w (argv ! 0)). \<not> x_ok w p"
  shows "fork_calls (world_of (execute_external w argv)) = fork_calls w \<and>
     children (world_of (execute_external w argv)) = children w \<and>
     (\<forall>u w'. execute_external w argv = Ret u w' \<longrightarrow>
        written STDERR_FILENO (log w') =
          written STDERR_FILENO (log w) @ '']'' @ argv ! 0 @ '']: Unknown Command[\<newline>'' \<and>
        written STDOUT_FILENO (log w') = written STDOUT_FILENO (log w))"
proof -
  from find_none [OF assms] obtain b where
    "find_command_path w (argv ! 0) (map (fresh_mem w) [0..<4096]) 4096 = Some (0, b)" by blast
  then have e: "execute_external w argv = print_unknown_command w (argv ! 0)"
    by (rule execute_external_unknown)
  note p = prints_facts [OF prints_unknown_command [of "argv ! 0" w]]
  from p(2) have "fork_calls (world_of (execute_external w argv)) = fork_calls w"
    "children (world_of (execute_external w argv)) = children w"
    unfolding e by (simp_all add: only_output_def)
  moreover have "written STDERR_FILENO (log w') =
          written STDERR_FILENO (log w) @ '']'' @ argv ! 0 @ '']: Unknown Command[\<newline>'' \<and>
        written STDOUT_FILENO (log w') = written STDOUT_FILENO (log w)"
    if "execute_external w argv = Ret u w'" for u w'
    using p(3) [of u w'] p(4) [of u w' STDOUT_FILENO] that unfolding e by simp
  ultimately show ?thesis by blast
qed

theorem unknown_command_reported_witness:
  "execute_external demo_world [''nosuch''] =
     Ret () (demo_world\<lparr>log := [Wrote STDERR_FILENO '']'', Wrote STDERR_FILENO ''nosuch'',
                                 Wrote STDERR_FILENO '']: Unknown Command[\<newline>'']\<rparr>) \<and>
   written STDERR_FILENO (log (world_of (execute_external demo_world [''nosuch'']))) =
     '']nosuch]: Unknown Command[\<newline>'' \<and>
   children (world_of (execute_external demo_world [''nosuch''])) = []"
proof -
  have c: "\<forall>p \<in> set (candidates demo_world ([''nosuch''] ! 0)). \<not> x_ok demo_world p"
    by (simp add: candidates_def demo_world_def)
  have n: "NUL \<notin> set ([''nosuch''] ! 0)" by simp
  have h: "\<And>h. home_env demo_world = Some h \<Longrightarrow> NUL \<notin> set h"
    by (auto simp: demo_world_def)
  from find_none [OF n h c] obtain b where
    "find_command_path demo_world ([''nosuch''] ! 0) (map (fresh_mem demo_world) [0..<4096]) 4096
       = Some (0, b)" by blast
  then have "execute_external demo_world [''nosuch''] =
      print_unknown_command demo_world ([''nosuch''] ! 0)"
    by (rule execute_external_unknown)
  also have "\<dots> = Ret () (demo_world\<lparr>log := [Wrote STDERR_FILENO '']'',
       Wrote STDERR_FILENO ''nosuch'', Wrote STDERR_FILENO '']: Unknown Command[\<newline>'']\<rparr>)"
    by (simp add: print_unknown_command_def print_str_quiet demo_world_def)
  finally have e: "execute_external demo_world [''nosuch''] =
     Ret () (demo_world\<lparr>log := [Wrote STDERR_FILENO '']'', Wrote STDERR_FILENO ''nosuch'',
                                 Wrote STDERR_FILENO '']: Unknown Command[\<newline>'']\<rparr>)" .
  from unknown_command_reported [OF n h c] e show ?thesis
    by (simp add: demo_world_def)
qed






definition home_tool_world :: world where
  "home_tool_world = demo_world\<lparr>x_ok := \<lambda>p. p = ''/home/u/tool''\<rparr>"

definition long_home_world :: world where
  "long_home_world = demo_world\<lparr>home_env := Some (replicate 4093 (CHR ''h''))\<rparr>"

lemma candidates_cases:
  "(home_env w = None \<or> home_env w = Some [] \<longrightarrow> candidates w cmd = [''/bin/'' @ cmd]) \<and>
   (\<forall>h. home_env w = Some h \<and> h \<noteq> [] \<longrightarrow> candidates w cmd = [h @ ''/'' @ cmd, ''/bin/'' @ cmd])"
  by (auto simp: candidates_def)

text \<open>
  C3. The candidates are \<open>$HOME/name\<close> and then \<open>/bin/name\<close>, the first of them left out
  when \<open>HOME\<close> is unset or empty. \<open>find_command_path\<close> returns 1 with the first candidate
  that passes the permission test in the buffer (\<open>find\<close> gives the first element of a list
  that satisfies a predicate), and 0 when none passes; a candidate that fails the test is
  passed over. The permission test is \<open>access(path, X_OK)\<close>, which the system refuses for
  a path of 4096 bytes or more (\<open>PATH_MAX\<close>); the command name and \<open>$HOME\<close> are C strings.
\<close>

theorem resolver_first_executable:
  assumes "NUL \<notin> set cmd" and "\<And>h. home_env w = Some h \<Longrightarrow> NUL \<notin> set h"
    and "length out_path = 4096"
    and "\<forall>p. x_ok w p \<longrightarrow> length p < 4096"
  shows "(\<exists>r b. find_command_path w cmd out_path 4096 = Some (r, b) \<and>
       (case find (x_ok w) (candidates w cmd) of
          None \<Rightarrow> r = 0
        | Some p \<Rightarrow> r = 1 \<and> cstr_at b 0 = p)) \<and>
     (home_env w = None \<or> home_env w = Some [] \<longrightarrow> candidates w cmd = [''/bin/'' @ cmd]) \<and>
     (\<forall>h. home_env w = Some h \<and> h \<noteq> [] \<longrightarrow>
        candidates w cmd = [h @ ''/'' @ cmd, ''/bin/'' @ cmd])"
proof -
  have "(\<lambda>p. length p + 1 \<le> 4096 \<and> x_ok w p) = x_ok w"
    using assms(4) by (auto simp: fun_eq_iff)
  with find_command_path_spec [OF assms(3) assms(1) assms(2), of w]
  have "\<exists>r b. find_command_path w cmd out_path 4096 = Some (r, b) \<and>
       (case find (x_ok w) (candidates w cmd) of
          None \<Rightarrow> r = 0
        | Some p \<Rightarrow> r = 1 \<and> cstr_at b 0 = p)"
    by auto
  with candidates_cases [of w cmd] show ?thesis by blast
qed

theorem resolver_first_executable_witness:
  "\<exists>b. find_command_path home_tool_world ''tool''
       (map (fresh_mem home_tool_world) [0..<4096]) 4096 = Some (1, b) \<and>
     cstr_at b 0 = ''/home/u/tool''"
proof -
  have 1: "NUL \<notin> set ''tool''" by simp
  have 2: "\<And>h. home_env home_tool_world = Some h \<Longrightarrow> NUL \<notin> set h"
    by (auto simp: home_tool_world_def demo_world_def)
  have 3: "length (map (fresh_mem home_tool_world) [0..<4096]) = 4096" by simp
  have 4: "\<forall>p. x_ok home_tool_world p \<longrightarrow> length p < 4096"
    by (simp add: home_tool_world_def demo_world_def)
  have 5: "find (x_ok home_tool_world) (candidates home_tool_world ''tool'') = Some ''/home/u/tool''"
    by (simp add: candidates_def home_tool_world_def demo_world_def)
  from resolver_first_executable [OF 1 2 3 4] show ?thesis unfolding 5 by auto
qed

text \<open>
  C7. With a buffer of 4096 bytes, as \<open>execute_external\<close> passes, no store of
  \<open>find_command_path\<close> leaves the buffer (the result is never \<open>None\<close>). A candidate whose
  bytes with the terminator exceed 4096 is skipped for its directory: the buffer is left
  as it was and the result is "not here". For an over-long \<open>$HOME\<close> candidate the search
  goes on with \<open>/bin\<close> exactly as if \<open>HOME\<close> were unset; for an over-long \<open>/bin\<close> candidate
  (with no \<open>HOME\<close>) the function returns 0, not an error.
\<close>

theorem long_path_skipped_in_bounds:
  assumes "length out_path = 4096"
  shows "find_command_path w cmd out_path 4096 \<noteq> None \<and>
     (\<forall>dir. 4096 < length dir + 1 + length cmd + 1 \<longrightarrow>
        try_dir w dir cmd out_path 4096 = Some (False, out_path)) \<and>
     (\<forall>h. home_env w = Some h \<and> 4096 < length h + 1 + length cmd + 1 \<longrightarrow>
        find_command_path w cmd out_path 4096 =
        find_command_path (w\<lparr>home_env := None\<rparr>) cmd out_path 4096) \<and>
     (home_env w = None \<and> 4096 < length ''/bin'' + 1 + length cmd + 1 \<longrightarrow>
        find_command_path w cmd out_path 4096 = Some (0, out_path))"
proof -
  have a: "find_command_path w cmd out_path 4096 \<noteq> None"
    using assms by (rule find_command_path_not_None)
  have b: "try_dir w dir cmd out_path 4096 = Some (False, out_path)"
    if "4096 < length dir + 1 + length cmd + 1" for dir
    using that by (rule try_dir_skip)
  have ie: "is_executable (w\<lparr>home_env := None\<rparr>) p = is_executable w p" for p
    by (simp add: is_executable_def)
  have t: "try_dir (w\<lparr>home_env := None\<rparr>) d cmd buf sz = try_dir w d cmd buf sz" for d buf sz
    by (simp add: try_dir_def ie split: option.splits)
  have c: "find_command_path w cmd out_path 4096 =
        find_command_path (w\<lparr>home_env := None\<rparr>) cmd out_path 4096"
    if "home_env w = Some h" "4096 < length h + 1 + length cmd + 1" for h
    using that b [of h] by (simp add: find_command_path_def t)
  have d: "find_command_path w cmd out_path 4096 = Some (0, out_path)"
    if "home_env w = None" "4096 < length ''/bin'' + 1 + length cmd + 1"
    using that b [of "''/bin''"] by (simp add: find_command_path_def)
  from a b c d show ?thesis by blast
qed

theorem long_path_skipped_in_bounds_witness:
  "\<exists>b. find_command_path long_home_world ''ls''
       (map (fresh_mem long_home_world) [0..<4096]) 4096 = Some (1, b) \<and>
     cstr_at b 0 = ''/bin/ls''"
proof -
  let ?buf = "map (fresh_mem long_home_world) [0..<4096]"
  let ?w = "long_home_world\<lparr>home_env := None\<rparr>"
  have l: "length ?buf = 4096" by simp
  have h: "home_env long_home_world = Some (replicate 4093 (CHR ''h'')) \<and>
      4096 < length (replicate 4093 (CHR ''h'')) + 1 + length ''ls'' + 1"
    by (simp add: long_home_world_def)
  from long_path_skipped_in_bounds [OF l, of long_home_world "''ls''"] h
  have e: "find_command_path long_home_world ''ls'' ?buf 4096 = find_command_path ?w ''ls'' ?buf 4096"
    by blast
  have "\<exists>r b. find_command_path ?w ''ls'' ?buf 4096 = Some (r, b) \<and> length b = 4096 \<and>
     (case find (\<lambda>p. length p + 1 \<le> 4096 \<and> x_ok ?w p) (candidates ?w ''ls'') of
        None \<Rightarrow> r = 0
      | Some p \<Rightarrow> r = 1 \<and> cstr_at b 0 = p)"
    by (rule find_command_path_spec) simp_all
  then show ?thesis unfolding e
    by (auto simp: candidates_def long_home_world_def demo_world_def)
qed

text \<open>The invariant of the loop of \<open>read_line\<close>: the block has \<open>cap\<close> bytes, \<open>len\<close> is
  below \<open>cap\<close>, so that the terminator has its place.\<close>

definition rl_inv :: "rl_state \<Rightarrow> bool" where
  "rl_inv s = (length (rl_line s) = rl_cap s \<and> rl_len s < rl_cap s \<and> rl_cap s \<le> PTRDIFF_MAX)"

text \<open>The state at the head of the loop after \<open>n\<close> turns, if the loop makes that many.\<close>

fun rl_after :: "nat \<Rightarrow> rl_state \<Rightarrow> rl_state option" where
  "rl_after 0 s = Some s"
| "rl_after (Suc n) s = (case read_iter s of RL_Next s' \<Rightarrow> rl_after n s' | _ \<Rightarrow> None)"

lemma size_t_small: "n < 2 ^ 64 \<Longrightarrow> size_t n = n"
  by (simp add: size_t_def)

lemma rl_grow_inv:
  assumes "rl_inv s"
  shows "case rl_grow s of
     RL_Next s1 \<Rightarrow>
       rl_inv s1 \<and> rl_len s1 + 2 \<le> rl_cap s1 \<and> rl_len s1 = rl_len s \<and>
       (rl_cap s1 = rl_cap s \<or> rl_cap s1 = 2 * rl_cap s) \<and>
       take (rl_len s) (rl_line s1) = take (rl_len s) (rl_line s) \<and>
       stdin_q (rl_world s1) = stdin_q (rl_world s) \<and> log (rl_world s1) = log (rl_world s)
   | RL_Return r s1 \<Rightarrow>
       r = - 1 \<and> rl_line s1 = rl_line s \<and> rl_cap s1 = rl_cap s \<and> rl_len s1 = rl_len s \<and>
       log (rl_world s1) = log (rl_world s)
   | RL_Fault s1 \<Rightarrow> False"
proof -
  from assms have l: "length (rl_line s) = rl_cap s" "rl_len s < rl_cap s"
    and c: "rl_cap s < 2 ^ 63"
    by (simp_all add: rl_inv_def PTRDIFF_MAX_def)
  have a: "size_t (rl_len s + 2) = rl_len s + 2" using l c by (intro size_t_small) simp
  have b: "size_t (rl_cap s * 2) = 2 * rl_cap s" using c by (subst size_t_small) simp_all
  show ?thesis
  proof (cases "rl_len s + 2 > rl_cap s")
    case False
    with assms a show ?thesis by (simp add: rl_grow_def)
  next
    case True
    show ?thesis
    proof (cases "2 * rl_cap s \<le> PTRDIFF_MAX \<and> alloc_ok (rl_world s) (2 * rl_cap s)")
      case False
      with True a b show ?thesis by (auto simp: rl_grow_def sys_realloc_def Let_def)
    next
      case ok: True
      let ?l = "take (2 * rl_cap s) (rl_line s) @
            map (fresh_mem (rl_world s)) [length (rl_line s)..<2 * rl_cap s]"
      from True ok a b have g: "rl_grow s = RL_Next (s\<lparr>rl_world := rl_world s, rl_line := ?l,
          rl_cap := 2 * rl_cap s\<rparr>)"
        by (simp add: rl_grow_def sys_realloc_def Let_def)
      have "length ?l = 2 * rl_cap s" using l by simp
      moreover have "take (rl_len s) ?l = take (rl_len s) (rl_line s)" using l by simp
      ultimately show ?thesis using l ok unfolding g by (simp add: rl_inv_def)
    qed
  qed
qed


lemma sys_read_log: "sys_read w = (r, w') \<Longrightarrow> log w' = log w \<and> write_q w' = write_q w"
  by (auto simp: sys_read_def split: list.splits read_result.splits)

lemma read_iter_inv:
  assumes "rl_inv s"
  shows "case read_iter s of
     RL_Next s' \<Rightarrow>
       rl_inv s' \<and> rl_len s' = rl_len s + 1 \<and>
       (rl_cap s' = rl_cap s \<or> rl_cap s' = 2 * rl_cap s) \<and>
       take (rl_len s) (rl_line s') = take (rl_len s) (rl_line s) \<and>
       (\<exists>c q. stdin_q (rl_world s) = RByte c # q \<and> stdin_q (rl_world s') = q \<and>
              c \<noteq> CHR 0x0A \<and> rl_line s' ! rl_len s = c) \<and>
       log (rl_world s') = log (rl_world s)
   | RL_Return r s' \<Rightarrow>
       length (rl_line s') = rl_cap s' \<and> rl_cap s' \<le> PTRDIFF_MAX \<and>
       (rl_cap s' = rl_cap s \<or> rl_cap s' = 2 * rl_cap s) \<and>
       (r = - 1 \<or> r = 0 \<or> r = 1) \<and>
       (r = 1 \<longrightarrow> rl_len s' = rl_len s \<and> rl_len s' < rl_cap s' \<and>
          take (rl_len s) (rl_line s') = take (rl_len s) (rl_line s) \<and>
          rl_line s' ! rl_len s = NUL) \<and>
       log (rl_world s') = log (rl_world s)
   | RL_Fault s' \<Rightarrow> False"
proof (cases "rl_grow s")
  case (RL_Fault s1)
  with rl_grow_inv [OF assms] show ?thesis by simp
next
  case (RL_Return r s1)
  with rl_grow_inv [OF assms] assms show ?thesis
    by (simp add: read_iter_def rl_inv_def)
next
  case (RL_Next s1)
  with rl_grow_inv [OF assms] have g: "rl_inv s1" "rl_len s1 + 2 \<le> rl_cap s1"
    "rl_len s1 = rl_len s" "rl_cap s1 = rl_cap s \<or> rl_cap s1 = 2 * rl_cap s"
    "take (rl_len s) (rl_line s1) = take (rl_len s) (rl_line s)"
    "stdin_q (rl_world s1) = stdin_q (rl_world s)" "log (rl_world s1) = log (rl_world s)"
    by simp_all
  from g(1) have l: "length (rl_line s1) = rl_cap s1" "rl_cap s1 \<le> PTRDIFF_MAX"
    by (simp_all add: rl_inv_def)
  from g(2) l have lt: "rl_len s1 < length (rl_line s1)" by simp
  have sz: "size_t (rl_len s1 + 1) = rl_len s1 + 1"
    using g(2) l by (intro size_t_small) (simp add: PTRDIFF_MAX_def)
  have fin: "rl_finish (s1\<lparr>rl_world := w2\<rparr>) =
      RL_Return 1 (s1\<lparr>rl_world := w2, rl_line := (rl_line s1)[rl_len s1 := NUL]\<rparr>)" for w2
    using lt by (simp add: rl_finish_def store_at_def)
  obtain r w2 where rd: "sys_read (rl_world s1) = (r, w2)" by (cases "sys_read (rl_world s1)")
  note lg = sys_read_log [OF rd]
  show ?thesis
  proof (cases r)
    case (RErr e)
    with RL_Next rd g l lg show ?thesis by (simp add: read_iter_def)
  next
    case REof
    with RL_Next rd g l lg lt fin show ?thesis by (simp add: read_iter_def)
  next
    case (RByte c)
    with rd g(6) obtain q where q: "stdin_q (rl_world s) = RByte c # q" "stdin_q w2 = q"
      by (auto simp: sys_read_def split: list.splits read_result.splits)
    show ?thesis
    proof (cases "c = CHR 0x0A")
      case True
      with RByte RL_Next rd g l lg lt fin show ?thesis by (simp add: read_iter_def)
    next
      case False
      with RByte RL_Next rd lt sz have "read_iter s =
          RL_Next (s1\<lparr>rl_world := w2, rl_line := (rl_line s1)[rl_len s1 := c],
                       rl_len := rl_len s1 + 1\<rparr>)"
        by (simp add: read_iter_def store_at_def)
      with g l lg lt q False show ?thesis by (simp add: rl_inv_def)
    qed
  qed
qed


lemma rl_after_inv:
  "rl_inv s0 \<Longrightarrow> rl_after n s0 = Some s \<Longrightarrow>
   rl_inv s \<and> rl_len s = rl_len s0 + n \<and> (\<exists>k. rl_cap s = rl_cap s0 * 2 ^ k) \<and>
   take (rl_len s0) (rl_line s) = take (rl_len s0) (rl_line s0) \<and>
   (\<forall>i<n. i < length (stdin_q (rl_world s0)) \<and>
      stdin_q (rl_world s0) ! i = RByte (rl_line s ! (rl_len s0 + i))) \<and>
   log (rl_world s) = log (rl_world s0)"
proof (induction n arbitrary: s0)
  case 0
  then show ?case by (auto intro: exI [of _ 0])
next
  case (Suc n)
  from Suc.prems(2) obtain s1 where it: "read_iter s0 = RL_Next s1" and af: "rl_after n s1 = Some s"
    by (auto split: rl_step.splits)
  from read_iter_inv [OF Suc.prems(1)] it obtain c q where
    i1: "rl_inv s1" "rl_len s1 = rl_len s0 + 1"
    "rl_cap s1 = rl_cap s0 \<or> rl_cap s1 = 2 * rl_cap s0"
    "take (rl_len s0) (rl_line s1) = take (rl_len s0) (rl_line s0)"
    "stdin_q (rl_world s0) = RByte c # q" "stdin_q (rl_world s1) = q"
    "rl_line s1 ! rl_len s0 = c" "log (rl_world s1) = log (rl_world s0)"
    by auto
  from Suc.IH [OF i1(1) af] obtain k where
    ih: "rl_inv s" "rl_len s = rl_len s1 + n" "rl_cap s = rl_cap s1 * 2 ^ k"
    "take (rl_len s1) (rl_line s) = take (rl_len s1) (rl_line s1)"
    "\<forall>i<n. i < length q \<and> q ! i = RByte (rl_line s ! (rl_len s1 + i))"
    "log (rl_world s) = log (rl_world s1)"
    unfolding i1(6) by blast
  have cap: "\<exists>k. rl_cap s = rl_cap s0 * 2 ^ k"
  proof (cases "rl_cap s1 = rl_cap s0")
    case True
    with ih(3) show ?thesis by auto
  next
    case False
    with i1(3) ih(3) have "rl_cap s = rl_cap s0 * 2 ^ Suc k" by simp
    then show ?thesis by blast
  qed
  have "take (rl_len s0) (take (rl_len s1) (rl_line s)) =
      take (rl_len s0) (take (rl_len s1) (rl_line s1))"
    using ih(4) by simp
  then have tk: "take (rl_len s0) (rl_line s) = take (rl_len s0) (rl_line s0)"
    using i1(2) i1(4) by (simp add: min_def)
  have "take (rl_len s1) (rl_line s) ! rl_len s0 = take (rl_len s1) (rl_line s1) ! rl_len s0"
    using ih(4) by simp
  then have first: "rl_line s ! rl_len s0 = c" using i1(2) i1(7) by simp
  have bytes: "i < length (stdin_q (rl_world s0)) \<and>
      stdin_q (rl_world s0) ! i = RByte (rl_line s ! (rl_len s0 + i))" if "i < Suc n" for i
  proof (cases i)
    case 0
    with first i1(5) show ?thesis by simp
  next
    case (Suc j)
    with that ih(5) have "j < length q \<and> q ! j = RByte (rl_line s ! (rl_len s1 + j))" by simp
    with Suc i1(2) i1(5) show ?thesis by simp
  qed
  from ih(1) ih(2) i1(2) cap tk bytes ih(6) i1(8) show ?case by simp
qed

lemma read_loop_sound:
  "rl_inv s \<Longrightarrow>
   (case read_loop s of
      Ret (r, l, c) w' \<Rightarrow>
        (\<exists>b. l = Some b \<and> length b = c) \<and> c \<le> PTRDIFF_MAX \<and> 0 < c \<and>
        (\<exists>k. c = rl_cap s * 2 ^ k) \<and> (r = - 1 \<or> r = 0 \<or> r = 1) \<and>
        log w' = log (rl_world s)
    | Exit _ _ \<Rightarrow> False
    | Killed _ _ \<Rightarrow> False
    | Fault _ \<Rightarrow> False)"
proof (induction s rule: read_loop.induct)
  case (1 s)
  note inv = read_iter_inv [OF "1.prems"]
  from "1.prems" have pos: "0 < rl_cap s" by (simp add: rl_inv_def)
  show ?case
  proof (cases "read_iter s")
    case (RL_Next s')
    with inv have i: "rl_inv s'" "rl_cap s' = rl_cap s \<or> rl_cap s' = 2 * rl_cap s"
      "log (rl_world s') = log (rl_world s)" by simp_all
    from i(2) have k: "\<exists>k. rl_cap s' * 2 ^ j = rl_cap s * 2 ^ k" for j
    proof
      assume "rl_cap s' = rl_cap s"
      then show ?thesis by auto
    next
      assume "rl_cap s' = 2 * rl_cap s"
      then have "rl_cap s' * 2 ^ j = rl_cap s * 2 ^ Suc j" by simp
      then show ?thesis by blast
    qed
    from "1.IH" [OF RL_Next i(1)] RL_Next i(3) k show ?thesis
      by (subst read_loop.simps) (auto split: outcome.splits)
  next
    case (RL_Return r s')
    with inv have i: "length (rl_line s') = rl_cap s'" "rl_cap s' \<le> PTRDIFF_MAX"
      "rl_cap s' = rl_cap s \<or> rl_cap s' = 2 * rl_cap s" "r = - 1 \<or> r = 0 \<or> r = 1"
      "log (rl_world s') = log (rl_world s)" by simp_all
    from i(3) have "\<exists>k. rl_cap s' = rl_cap s * 2 ^ k"
    proof
      assume "rl_cap s' = rl_cap s"
      then show ?thesis by (auto intro: exI [of _ 0])
    next
      assume "rl_cap s' = 2 * rl_cap s"
      then show ?thesis by (auto intro: exI [of _ 1])
    qed
    moreover from i(3) pos have "0 < rl_cap s'" by auto
    ultimately show ?thesis using RL_Return i
      by (subst read_loop.simps) simp
  next
    case (RL_Fault s')
    with inv show ?thesis by simp
  qed
qed

text \<open>What the loop of \<open>main\<close> passes to \<open>read_line\<close>: no buffer yet, or the block of \<open>cap\<close>
  bytes an earlier call left.\<close>

definition buf_ok :: "char list option \<Rightarrow> nat \<Rightarrow> bool" where
  "buf_ok line cap =
     (line = None \<or> cap = 0 \<or> (\<exists>b. line = Some b \<and> length b = cap \<and> cap \<le> PTRDIFF_MAX))"

lemma rl_enter_inv:
  assumes "buf_ok line cap" and "rl_enter w line cap = (Some buf, cap1, w1)"
  shows "rl_inv \<lparr>rl_world = w1, rl_line = buf, rl_cap = cap1, rl_len = 0\<rparr> \<and>
     (line = None \<or> cap = 0 \<longrightarrow> cap1 = INITIAL_BUFSZ) \<and>
     (line \<noteq> None \<and> cap \<noteq> 0 \<longrightarrow> cap1 = cap \<and> line = Some buf) \<and>
     log w1 = log w"
  using assms
  by (auto simp: buf_ok_def rl_enter_def sys_malloc_def rl_inv_def INITIAL_BUFSZ_def
      PTRDIFF_MAX_def split: if_splits)

lemma rl_enter_None:
  "rl_enter w line cap = (None, cap1, w1) \<Longrightarrow> log w1 = log w"
  by (auto simp: rl_enter_def sys_malloc_def split: if_splits)

lemma read_line_sound:
  assumes "buf_ok line cap"
  shows "case read_line w line cap of
      Ret (r, l, c) w' \<Rightarrow>
        buf_ok l c \<and> (r = - 1 \<or> r = 0 \<or> r = 1) \<and> (0 \<le> r \<longrightarrow> l \<noteq> None) \<and>
        log w' = log w
    | Exit _ _ \<Rightarrow> False
    | Killed _ _ \<Rightarrow> False
    | Fault _ \<Rightarrow> False"
proof -
  obtain l cap1 w1 where e: "rl_enter w line cap = (l, cap1, w1)"
    by (cases "rl_enter w line cap")
  show ?thesis
  proof (cases l)
    case None
    with e rl_enter_None [of w line cap cap1 w1] show ?thesis
      by (simp add: read_line_def buf_ok_def)
  next
    case (Some buf)
    with e rl_enter_inv [OF assms, of w buf cap1 w1]
    have i: "rl_inv \<lparr>rl_world = w1, rl_line = buf, rl_cap = cap1, rl_len = 0\<rparr>"
      "log w1 = log w" by simp_all
    from read_loop_sound [OF i(1)] i(2) e Some show ?thesis
      by (auto simp: read_line_def buf_ok_def split: outcome.splits)
  qed
qed


definition typing_world :: world where
  "typing_world = demo_world\<lparr>stdin_q := map RByte ''ls\<newline>''\<rparr>"

text \<open>
  C8. Let \<open>read_line\<close> be called as \<open>main\<close> calls it (no buffer yet, or the block an
  earlier call left) and let \<open>s\<close> be the state at the head of its loop after any number
  \<open>n\<close> of turns. Then \<open>len < cap\<close>, the block has \<open>cap\<close> bytes, \<open>len\<close> is \<open>n\<close> and the first
  \<open>n\<close> bytes of the block are the \<open>n\<close> bytes read. The capacity at entry is
  \<open>INITIAL_BUFSZ\<close> when the buffer is allocated here, the caller's otherwise, and the
  capacity in \<open>s\<close> is that value doubled some number of times. The growth step that
  comes next keeps the capacity or doubles it, keeps the \<open>len\<close> bytes accumulated, leaves
  room for a byte and the terminator, or fails with \<open>-1\<close> and leaves line and capacity
  alone. The call itself never faults, and what it hands back is again a block of its
  capacity, a doubling of the entry capacity, fit for the next call.
\<close>

theorem read_line_capacity_invariant:
  assumes "buf_ok line cap"
    and "rl_enter w line cap = (Some buf, cap1, w1)"
    and "rl_after n \<lparr>rl_world = w1, rl_line = buf, rl_cap = cap1, rl_len = 0\<rparr> = Some s"
  shows "rl_len s < rl_cap s \<and> length (rl_line s) = rl_cap s \<and> rl_len s = n \<and>
     (line = None \<or> cap = 0 \<longrightarrow> cap1 = INITIAL_BUFSZ) \<and>
     (line \<noteq> None \<and> cap \<noteq> 0 \<longrightarrow> cap1 = cap \<and> line = Some buf) \<and>
     (\<exists>k. rl_cap s = cap1 * 2 ^ k) \<and>
     (\<forall>i<n. stdin_q w1 ! i = RByte (rl_line s ! i)) \<and>
     (case rl_grow s of
        RL_Next s1 \<Rightarrow>
          (rl_cap s1 = rl_cap s \<or> rl_cap s1 = 2 * rl_cap s) \<and> rl_len s1 + 2 \<le> rl_cap s1 \<and>
          length (rl_line s1) = rl_cap s1 \<and>
          take (rl_len s) (rl_line s1) = take (rl_len s) (rl_line s)
      | RL_Return r s1 \<Rightarrow> r = - 1 \<and> rl_line s1 = rl_line s \<and> rl_cap s1 = rl_cap s
      | RL_Fault s1 \<Rightarrow> False) \<and>
     (case read_line w line cap of
        Ret (r, l, c) w' \<Rightarrow> buf_ok l c \<and> (\<exists>b k. l = Some b \<and> length b = c \<and> c = cap1 * 2 ^ k)
      | Exit c w' \<Rightarrow> False
      | Killed g w' \<Rightarrow> False
      | Fault w' \<Rightarrow> False)"
proof -
  let ?s0 = "\<lparr>rl_world = w1, rl_line = buf, rl_cap = cap1, rl_len = 0\<rparr>"
  from rl_enter_inv [OF assms(1,2)] have
    e: "rl_inv ?s0" "line = None \<or> cap = 0 \<longrightarrow> cap1 = INITIAL_BUFSZ"
    "line \<noteq> None \<and> cap \<noteq> 0 \<longrightarrow> cap1 = cap \<and> line = Some buf"
    by simp_all
  from rl_after_inv [OF e(1) assms(3)] have
    a: "rl_inv s" "rl_len s = n" "\<exists>k. rl_cap s = cap1 * 2 ^ k"
    "\<forall>i<n. stdin_q w1 ! i = RByte (rl_line s ! i)"
    by simp_all
  from a(1) have b: "rl_len s < rl_cap s" "length (rl_line s) = rl_cap s"
    by (simp_all add: rl_inv_def)
  have g: "case rl_grow s of
        RL_Next s1 \<Rightarrow>
          (rl_cap s1 = rl_cap s \<or> rl_cap s1 = 2 * rl_cap s) \<and> rl_len s1 + 2 \<le> rl_cap s1 \<and>
          length (rl_line s1) = rl_cap s1 \<and>
          take (rl_len s) (rl_line s1) = take (rl_len s) (rl_line s)
      | RL_Return r s1 \<Rightarrow> r = - 1 \<and> rl_line s1 = rl_line s \<and> rl_cap s1 = rl_cap s
      | RL_Fault s1 \<Rightarrow> False"
    using rl_grow_inv [OF a(1)] by (auto simp: rl_inv_def split: rl_step.splits)
  have r: "case read_line w line cap of
        Ret (r, l, c) w' \<Rightarrow> buf_ok l c \<and> (\<exists>b k. l = Some b \<and> length b = c \<and> c = cap1 * 2 ^ k)
      | Exit c w' \<Rightarrow> False
      | Killed g w' \<Rightarrow> False
      | Fault w' \<Rightarrow> False"
    using read_loop_sound [OF e(1)] assms(2)
    by (auto simp: read_line_def buf_ok_def split: outcome.splits)
  from a(2,3,4) b e(2,3) g r show ?thesis by blast
qed

theorem read_line_capacity_invariant_witness:
  "\<exists>s. rl_after 2 \<lparr>rl_world = typing_world, rl_line = map (fresh_mem typing_world) [0..<1024],
         rl_cap = 1024, rl_len = 0\<rparr> = Some s \<and>
       rl_len s = 2 \<and> rl_len s < rl_cap s \<and> length (rl_line s) = rl_cap s \<and>
       rl_line s ! 0 = CHR ''l'' \<and> rl_line s ! 1 = CHR ''s''"
proof -
  let ?buf = "map (fresh_mem typing_world) [0..<1024]"
  let ?s0 = "\<lparr>rl_world = typing_world, rl_line = ?buf, rl_cap = 1024, rl_len = 0\<rparr>"
  have 1: "buf_ok None 0" by (simp add: buf_ok_def)
  have 2: "rl_enter typing_world None 0 = (Some ?buf, 1024, typing_world)"
    by (simp add: rl_enter_def sys_malloc_def INITIAL_BUFSZ_def PTRDIFF_MAX_def
        typing_world_def demo_world_def)
  have st: "stdin_q typing_world = [RByte (CHR ''l''), RByte (CHR ''s''), RByte (CHR 0x0A)]"
    by (simp add: typing_world_def)
  have two: "rl_after 2 s =
      (case read_iter s of
         RL_Next s' \<Rightarrow> (case read_iter s' of RL_Next s'' \<Rightarrow> Some s'' | _ \<Rightarrow> None)
       | _ \<Rightarrow> None)" for s
    by (simp add: numeral_2_eq_2 split: rl_step.splits)
  have "\<exists>s. rl_after 2 \<lparr>rl_world = typing_world, rl_line = b, rl_cap = 1024, rl_len = 0\<rparr> = Some s"
    if "length b = 1024" for b
    using that
    by (simp add: two read_iter_def rl_grow_def size_t_def sys_read_def store_at_def st)
  then obtain s where 3: "rl_after 2 ?s0 = Some s" by fastforce
  note t = read_line_capacity_invariant [OF 1 2 3]
  from t have "\<forall>i<2. stdin_q typing_world ! i = RByte (rl_line s ! i)" by blast
  then have "stdin_q typing_world ! 0 = RByte (rl_line s ! 0)"
    "stdin_q typing_world ! 1 = RByte (rl_line s ! 1)" by simp_all
  then have c: "rl_line s ! 0 = CHR ''l''" "rl_line s ! 1 = CHR ''s''" by (simp_all add: st)
  from t have "rl_len s = 2" "rl_len s < rl_cap s" "length (rl_line s) = rl_cap s" by blast+
  with c 3 show ?thesis by blast
qed

subsection \<open>How the shell ends\<close>

text \<open>\<open>read_line\<close> makes no write.\<close>

lemma read_iter_write_q:
  "read_iter s = RL_Next s' \<or> read_iter s = RL_Return r s' \<Longrightarrow>
   write_q (rl_world s') = write_q (rl_world s)"
  by (auto simp: read_iter_def rl_grow_def rl_finish_def sys_read_def sys_realloc_def Let_def
      store_at_def
      split: rl_step.splits prod.splits read_result.splits if_splits option.splits list.splits)

lemma read_loop_write_q:
  "read_loop s = Ret x w' \<Longrightarrow> write_q w' = write_q (rl_world s)"
proof (induction s rule: read_loop.induct)
  case (1 s)
  show ?case
  proof (cases "read_iter s")
    case (RL_Next s')
    with "1.prems" have "read_loop s' = Ret x w'" by (simp add: read_loop.simps [of s])
    from "1.IH" [OF RL_Next this] read_iter_write_q [of s s'] RL_Next show ?thesis by simp
  next
    case (RL_Return r' s')
    with "1.prems" have "w' = rl_world s'" by (auto simp: read_loop.simps [of s])
    with read_iter_write_q [of s s' r'] RL_Return show ?thesis by simp
  next
    case (RL_Fault s')
    with "1.prems" show ?thesis by (simp add: read_loop.simps [of s])
  qed
qed

lemma read_line_write_q:
  "read_line w line cap = Ret x w' \<Longrightarrow> write_q w' = write_q w"
  by (auto simp: read_line_def rl_enter_def sys_malloc_def dest!: read_loop_write_q
      split: if_splits option.splits prod.splits)

text \<open>A call ends the shell in two ways only: a write that failed, with status 1, and a
  write that raised \<open>SIGPIPE\<close>, which kills it. A call that returns has seen neither.\<close>

definition same_failures :: "world \<Rightarrow> world \<Rightarrow> bool" where
  "same_failures w w' =
     (write_failed (log w') = write_failed (log w) \<and>
      sigpipe_raised (log w') = sigpipe_raised (log w) \<and>
      set (write_q w') \<subseteq> set (write_q w))"

definition fails_only_on_write :: "world \<Rightarrow> 'a outcome \<Rightarrow> bool" where
  "fails_only_on_write w out =
     (case out of
        Ret _ w' \<Rightarrow> same_failures w w'
      | Exit c w' \<Rightarrow> c = 1 \<and> write_failed (log w')
      | Killed g w' \<Rightarrow> g = SIGPIPE \<and> sigpipe_raised (log w') \<and> WSigpipe \<in> set (write_q w)
      | Fault _ \<Rightarrow> False)"

lemma same_failures_trans:
  "same_failures w w1 \<Longrightarrow> same_failures w1 w2 \<Longrightarrow> same_failures w w2"
  by (auto simp: same_failures_def)

lemma prints_fails_only_on_write:
  "prints fd s w out \<Longrightarrow> fails_only_on_write w out"
  by (auto simp: prints_def fails_only_on_write_def same_failures_def wrote_only_not_failed
      wrote_only_not_sigpipe split: outcome.splits)

lemma perror_fails_only_on_write:
  "log w1 = log w \<Longrightarrow> write_q w1 = write_q w \<Longrightarrow> fails_only_on_write w (perror w1 label)"
  by (auto simp: perror_def fails_only_on_write_def same_failures_def
      split: list.splits write_result.splits)

lemma handle_cd_fails_only_on_write: "fails_only_on_write w (handle_cd w argc argv)"
proof -
  have "fails_only_on_write w (print_str w STDERR_FILENO s)" for s
    by (rule prints_fails_only_on_write [OF prints_print_str])
  moreover have "fails_only_on_write w (perror (w\<lparr>errno := e\<rparr>) ''cd'')" for e
    by (rule perror_fails_only_on_write) simp_all
  moreover have "fails_only_on_write w (Ret () (w\<lparr>cwd := d\<rparr>))" for d
    by (simp add: fails_only_on_write_def same_failures_def)
  ultimately show ?thesis
    by (auto simp: handle_cd_def sys_chdir_def split: option.splits sum.splits)
qed

lemma execute_external_fails_only_on_write: "fails_only_on_write w (execute_external w argv)"
proof -
  let ?buf = "map (fresh_mem w) [0..<4096]"
  have "find_command_path w (argv ! 0) ?buf 4096 \<noteq> None"
    by (rule find_command_path_not_None) simp
  then obtain r pb where f: "find_command_path w (argv ! 0) ?buf 4096 = Some (r, pb)" by auto
  show ?thesis
  proof (cases "r = 0")
    case True
    with f have "execute_external w argv = print_unknown_command w (argv ! 0)"
      by (simp add: execute_external_unknown)
    with prints_fails_only_on_write [OF prints_unknown_command] show ?thesis by simp
  next
    case False
    show ?thesis
    proof (cases "fork_res w (fork_calls w)")
      case (ForkFails e)
      show ?thesis
        unfolding execute_external_fork_failed [OF f False ForkFails]
        by (rule perror_fails_only_on_write) simp_all
    next
      case (ForkParent pid)
      show ?thesis
      proof (cases "wait_res w (fork_calls w)")
        case (WaitFails e)
        show ?thesis
          unfolding execute_external_wait_failed [OF f False ForkParent WaitFails]
          by (rule perror_fails_only_on_write) simp_all
      next
        case WaitOk
        let ?w2 = "w\<lparr>fork_calls := fork_calls w + 1,
           children := children w @
             [(pid, child_after_fork w (fork_calls w) (cstr_at pb 0) argv)]\<rparr>"
        have "prints STDOUT_FILENO (''Command executed successfully.\<newline>'' @
            status_line (wait_status (child_after_fork w (fork_calls w) (cstr_at pb 0) argv)))
            ?w2 (execute_external w argv)"
          unfolding execute_external_waited [OF f False ForkParent WaitOk]
          by (intro prints_then_do prints_print_str prints_report_status)
        from prints_fails_only_on_write [OF this] show ?thesis
          by (simp add: fails_only_on_write_def same_failures_def split: outcome.splits)
      qed
    qed
  qed
qed

lemma parse_loop_length: "length (fst (parse_loop line p argv m)) = length line"
proof (induction line p argv m rule: parse_loop.induct)
  case (1 line p argv max_args)
  show ?case
    using "1.IH" by (subst parse_loop.simps) (simp add: Let_def)
qed

lemma parse_tokens_length: "parse_tokens buf m = (buf', offs) \<Longrightarrow> length buf' = length buf"
  using parse_loop_length [of buf 0 "[]" m] by (simp add: parse_tokens_def)


text \<open>How \<open>main\<close> ends: \<open>return 0\<close>, with no write failed and no \<open>SIGPIPE\<close> since the
  start; \<open>_exit(1)\<close> after a failed write; killed by \<open>SIGPIPE\<close> in a write; never a
  fault.\<close>

definition shell_end :: "world \<Rightarrow> int outcome \<Rightarrow> bool" where
  "shell_end w out =
     (case out of
        Ret r w' \<Rightarrow> r = 0 \<and> same_failures w w'
      | Exit c w' \<Rightarrow> c = 1 \<and> write_failed (log w')
      | Killed g w' \<Rightarrow> g = SIGPIPE \<and> sigpipe_raised (log w') \<and> WSigpipe \<in> set (write_q w)
      | Fault _ \<Rightarrow> False)"

lemma shell_end_trans:
  "same_failures w w1 \<Longrightarrow> shell_end w1 out \<Longrightarrow> shell_end w out"
  by (auto simp: shell_end_def same_failures_def split: outcome.splits)

lemma main_loop_sound:
  "buf_ok line cap \<Longrightarrow> shell_end w (main_loop w line cap)"
proof (induction w line cap rule: main_loop.induct)
  case (1 w line cap)
  note ml = main_loop.simps [of w line cap]
  have p: "fails_only_on_write w (print_str w STDOUT_FILENO PROMPT)"
    by (rule prints_fails_only_on_write [OF prints_print_str])
  show ?case
  proof (cases "print_str w STDOUT_FILENO PROMPT")
    case (Exit c w1)
    with p show ?thesis by (subst ml) (simp add: fails_only_on_write_def shell_end_def)
  next
    case (Killed g w1)
    with p show ?thesis by (subst ml) (simp add: fails_only_on_write_def shell_end_def)
  next
    case (Fault w1)
    with p show ?thesis by (simp add: fails_only_on_write_def)
  next
    case (Ret u w1)
    with p have wf1: "same_failures w w1"
      by (simp add: fails_only_on_write_def)
    note rl = read_line_sound [OF "1.prems", of w1]
    show ?thesis
    proof (cases "read_line w1 line cap")
      case (Exit c w2)
      with rl show ?thesis by simp
    next
      case (Killed g w2)
      with rl show ?thesis by simp
    next
      case (Fault w2)
      with rl show ?thesis by simp
    next
      case r2: (Ret res w2)
      obtain rr l c where res: "res = (rr, l, c)" by (cases res)
      note r2' = r2 [unfolded res]
      from rl r2' have r: "buf_ok l c" "rr = - 1 \<or> rr = 0 \<or> rr = 1" "0 \<le> rr \<longrightarrow> l \<noteq> None"
        and wf2: "same_failures w w2"
        using wf1 read_line_write_q [OF r2'] by (simp_all add: same_failures_def)
      show ?thesis
      proof (cases "rr < 0")
        case True
        have "fails_only_on_write w2 (perror w2 ''read'')"
          by (rule perror_fails_only_on_write) simp_all
        with True Ret r2' wf2 show ?thesis
          by (subst ml)
            (cases "perror w2 ''read''";
              auto simp: shell_end_def fails_only_on_write_def same_failures_def)
      next
        case nlt: False
        show ?thesis
        proof (cases "rr = 0")
          case True
          have "fails_only_on_write w2 (print_str w2 STDOUT_FILENO ''\<newline>'')"
            by (rule prints_fails_only_on_write [OF prints_print_str])
          with True Ret r2' wf2 show ?thesis
            by (subst ml)
              (cases "print_str w2 STDOUT_FILENO ''\<newline>''";
                auto simp: shell_end_def fails_only_on_write_def same_failures_def)
        next
          case nz: False
          with nlt r obtain buf where l: "l = Some buf" by auto
          show ?thesis
          proof (cases "byte_at buf 0 = NUL")
            case True
            have ih: "shell_end w2 (main_loop w2 l c)"
              by (rule "1.IH"(1) [OF Ret r2' refl refl nlt nz l True r(1)])
            from True Ret r2' nlt nz l
            have eq: "main_loop w line cap = main_loop w2 l c" by (subst ml) simp
            show ?thesis unfolding eq by (rule shell_end_trans [OF wf2 ih])
          next
            case nnul: False
            obtain buf' offs where pt: "parse_tokens buf MAX_ARGS = (buf', offs)"
              by (cases "parse_tokens buf MAX_ARGS")
            from parse_tokens_length [OF pt] r(1) l have ok': "buf_ok (Some buf') c"
              by (auto simp: buf_ok_def)
            let ?argc = "int (length offs)"
            let ?argv = "map (cstr_at buf') offs"
            show ?thesis
            proof (cases "?argc = 0")
              case True
              have ih: "shell_end w2 (main_loop w2 (Some buf') c)"
                by (rule "1.IH"(2) [OF Ret r2' refl refl nlt nz l nnul pt [symmetric] refl refl
                      True ok'])
              from True Ret r2' nlt nz l nnul pt
              have eq: "main_loop w line cap = main_loop w2 (Some buf') c" by (subst ml) simp
              show ?thesis unfolding eq by (rule shell_end_trans [OF wf2 ih])
            next
              case argc: False
              show ?thesis
              proof (cases "?argv ! 0 = ''exit''")
                case True
                with argc Ret r2' nlt nz l nnul pt wf2 show ?thesis
                  by (subst ml) (simp add: shell_end_def)
              next
                case nexit: False
                show ?thesis
                proof (cases "?argv ! 0 = ''cd''")
                  case True
                  note h = handle_cd_fails_only_on_write [of w2 ?argc ?argv]
                  show ?thesis
                  proof (cases "handle_cd w2 ?argc ?argv")
                    case r3: (Ret u' w3)
                    with h wf2 have wf3: "same_failures w w3"
                      by (auto simp: fails_only_on_write_def intro: same_failures_trans)
                    have ih: "shell_end w3 (main_loop w3 (Some buf') c)"
                      by (rule "1.IH"(3) [OF Ret r2' refl refl nlt nz l nnul pt [symmetric]
                            refl refl argc nexit True r3 ok'])
                    from True nexit argc Ret r2' nlt nz l nnul pt r3
                    have eq: "main_loop w line cap = main_loop w3 (Some buf') c"
                      by (subst ml) (simp add: Let_def)
                    show ?thesis unfolding eq by (rule shell_end_trans [OF wf3 ih])
                  next
                    case (Exit c3 w3)
                    with h True nexit argc Ret r2' nlt nz l nnul pt show ?thesis
                      by (subst ml) (simp add: Let_def fails_only_on_write_def shell_end_def)
                  next
                    case (Killed g3 w3)
                    with h wf2 True nexit argc Ret r2' nlt nz l nnul pt show ?thesis
                      by (subst ml)
                        (auto simp: Let_def fails_only_on_write_def shell_end_def
                          same_failures_def)
                  next
                    case (Fault w3)
                    with h show ?thesis by (simp add: fails_only_on_write_def)
                  qed
                next
                  case ncd: False
                  note h = execute_external_fails_only_on_write [of w2 ?argv]
                  show ?thesis
                  proof (cases "execute_external w2 ?argv")
                    case r3: (Ret u' w3)
                    with h wf2 have wf3: "same_failures w w3"
                      by (auto simp: fails_only_on_write_def intro: same_failures_trans)
                    have ih: "shell_end w3 (main_loop w3 (Some buf') c)"
                      by (rule "1.IH"(4) [OF Ret r2' refl refl nlt nz l nnul pt [symmetric]
                            refl refl argc nexit ncd r3 ok'])
                    from ncd nexit argc Ret r2' nlt nz l nnul pt r3
                    have eq: "main_loop w line cap = main_loop w3 (Some buf') c"
                      by (subst ml) (simp add: Let_def)
                    show ?thesis unfolding eq by (rule shell_end_trans [OF wf3 ih])
                  next
                    case (Exit c3 w3)
                    with h ncd nexit argc Ret r2' nlt nz l nnul pt show ?thesis
                      by (subst ml) (simp add: Let_def fails_only_on_write_def shell_end_def)
                  next
                    case (Killed g3 w3)
                    with h wf2 ncd nexit argc Ret r2' nlt nz l nnul pt show ?thesis
                      by (subst ml)
                        (auto simp: Let_def fails_only_on_write_def shell_end_def
                          same_failures_def)
                  next
                    case (Fault w3)
                    with h show ?thesis by (simp add: fails_only_on_write_def)
                  qed
                qed
              qed
            qed
          qed
        qed
      qed
    qed
  qed
qed

lemma main_sound: "shell_end w (main w)"
  unfolding main_def by (rule main_loop_sound) (simp add: buf_ok_def)


subsection \<open>The loop on a given input\<close>

text \<open>What \<open>read_line\<close> and one turn of the loop of \<open>main\<close> do on a line that fits the
  first block.\<close>

lemma read_iter_byte:
  assumes "stdin_q (rl_world s) = RByte b # q" "b \<noteq> CHR 0x0A"
    and "rl_len s + 2 \<le> rl_cap s" "length (rl_line s) = rl_cap s" "rl_cap s \<le> PTRDIFF_MAX"
  shows "read_iter s = RL_Next (s\<lparr>rl_world := (rl_world s)\<lparr>stdin_q := q\<rparr>,
      rl_line := (rl_line s)[rl_len s := b], rl_len := rl_len s + 1\<rparr>)"
proof -
  have a: "size_t (rl_len s + 2) = rl_len s + 2" "size_t (rl_len s + 1) = rl_len s + 1"
    using assms(3,5) by (simp_all add: size_t_def PTRDIFF_MAX_def)
  with assms show ?thesis
    by (simp add: read_iter_def rl_grow_def sys_read_def store_at_def)
qed

lemma read_iter_newline:
  assumes "stdin_q (rl_world s) = RByte (CHR 0x0A) # q"
    and "rl_len s + 2 \<le> rl_cap s" "length (rl_line s) = rl_cap s" "rl_cap s \<le> PTRDIFF_MAX"
  shows "read_iter s = RL_Return 1 (s\<lparr>rl_world := (rl_world s)\<lparr>stdin_q := q\<rparr>,
      rl_line := (rl_line s)[rl_len s := NUL]\<rparr>)"
proof -
  have a: "size_t (rl_len s + 2) = rl_len s + 2"
    using assms(2,4) by (simp_all add: size_t_def PTRDIFF_MAX_def)
  with assms show ?thesis
    by (simp add: read_iter_def rl_grow_def sys_read_def store_at_def rl_finish_def)
qed

lemma read_loop_line:
  assumes "stdin_q (rl_world s) = map RByte bs @ RByte (CHR 0x0A) # q"
    and "CHR 0x0A \<notin> set bs"
    and "rl_len s + length bs + 2 \<le> rl_cap s" "length (rl_line s) = rl_cap s"
    and "rl_cap s \<le> PTRDIFF_MAX"
  shows "read_loop s =
     Ret (1, Some (take (rl_len s) (rl_line s) @ bs @ NUL #
                   drop (rl_len s + length bs + 1) (rl_line s)), rl_cap s)
         ((rl_world s)\<lparr>stdin_q := q\<rparr>)"
  using assms
proof (induction bs arbitrary: s)
  case Nil
  then have "read_iter s = RL_Return 1 (s\<lparr>rl_world := (rl_world s)\<lparr>stdin_q := q\<rparr>,
      rl_line := (rl_line s)[rl_len s := NUL]\<rparr>)"
    by (intro read_iter_newline) simp_all
  moreover from Nil have "(rl_line s)[rl_len s := NUL] =
      take (rl_len s) (rl_line s) @ NUL # drop (rl_len s + 1) (rl_line s)"
    by (simp add: upd_conv_take_nth_drop)
  ultimately show ?case by (subst read_loop.simps) simp
next
  case (Cons b bs)
  let ?s' = "s\<lparr>rl_world := (rl_world s)\<lparr>stdin_q := map RByte bs @ RByte (CHR 0x0A) # q\<rparr>,
      rl_line := (rl_line s)[rl_len s := b], rl_len := rl_len s + 1\<rparr>"
  from Cons.prems have it: "read_iter s = RL_Next ?s'"
    by (intro read_iter_byte) auto
  from Cons.prems have "read_loop ?s' =
     Ret (1, Some (take (rl_len ?s') (rl_line ?s') @ bs @ NUL #
                   drop (rl_len ?s' + length bs + 1) (rl_line ?s')), rl_cap ?s')
         ((rl_world ?s')\<lparr>stdin_q := q\<rparr>)"
    by (intro Cons.IH) simp_all
  moreover from Cons.prems have "take (rl_len s + 1) ((rl_line s)[rl_len s := b]) =
      take (rl_len s) (rl_line s) @ [b]"
    by (simp add: take_Suc_conv_app_nth)
  ultimately show ?case using it
    by (subst read_loop.simps) simp
qed


lemma parse_cd_tmp:
  "parse_tokens (''cd /tmp'' @ NUL # rest) MAX_ARGS = (''cd'' @ NUL # ''/tmp'' @ NUL # rest, [0, 3])"
  by (simp add: parse_tokens_def parse_loop.simps skip_blanks.simps skip_token.simps byte_at_def
      MAX_ARGS_def Let_def)

lemma parse_cd:
  "parse_tokens (''cd'' @ NUL # rest) MAX_ARGS = (''cd'' @ NUL # rest, [0])"
  by (simp add: parse_tokens_def parse_loop.simps skip_blanks.simps skip_token.simps byte_at_def
      MAX_ARGS_def Let_def)

lemma read_line_first:
  assumes "stdin_q w = map RByte bs @ RByte (CHR 0x0A) # q" "CHR 0x0A \<notin> set bs"
    and "length bs + 2 \<le> 1024" "length b = 1024"
  shows "read_line w (Some b) 1024 =
     Ret (1, Some (bs @ NUL # drop (length bs + 1) b), 1024) (w\<lparr>stdin_q := q\<rparr>)"
proof -
  let ?s = "\<lparr>rl_world = w, rl_line = b, rl_cap = 1024, rl_len = 0\<rparr>"
  have "read_loop ?s =
     Ret (1, Some (take (rl_len ?s) (rl_line ?s) @ bs @ NUL #
                   drop (rl_len ?s + length bs + 1) (rl_line ?s)), rl_cap ?s)
         ((rl_world ?s)\<lparr>stdin_q := q\<rparr>)"
    by (rule read_loop_line) (use assms in \<open>simp_all add: PTRDIFF_MAX_def\<close>)
  then show ?thesis by (simp add: read_line_def rl_enter_def)
qed


lemma read_line_fresh:
  "alloc_ok w INITIAL_BUFSZ \<Longrightarrow>
   read_line w None 0 = read_line w (Some (map (fresh_mem w) [0..<1024])) 1024"
  by (simp add: read_line_def rl_enter_def sys_malloc_def INITIAL_BUFSZ_def PTRDIFF_MAX_def)

lemma read_line_eof:
  assumes "stdin_q w = []" "length b = 1024"
  shows "read_line w (Some b) 1024 = Ret (0, Some b, 1024) w"
  using assms
  by (simp add: read_line_def rl_enter_def read_loop.simps read_iter_def rl_grow_def size_t_def
      sys_read_def)

lemma main_loop_eof:
  assumes "stdin_q w = []" "write_q w = []" "length b = 1024"
  shows "main_loop w (Some b) 1024 =
     Ret 0 (w\<lparr>log := log w @ [Wrote STDOUT_FILENO PROMPT, Wrote STDOUT_FILENO ''\<newline>'']\<rparr>)"
proof -
  let ?w1 = "w\<lparr>log := log w @ [Wrote STDOUT_FILENO PROMPT]\<rparr>"
  have p: "print_str w STDOUT_FILENO PROMPT = Ret () ?w1"
    using assms(2) by (simp add: print_str_quiet PROMPT_def)
  have r: "read_line ?w1 (Some b) 1024 = Ret (0, Some b, 1024) ?w1"
    by (rule read_line_eof) (use assms in simp_all)
  have n: "print_str ?w1 STDOUT_FILENO ''\<newline>'' =
      Ret () (?w1\<lparr>log := log ?w1 @ [Wrote STDOUT_FILENO ''\<newline>'']\<rparr>)"
    using assms(2) by (simp add: print_str_quiet)
  show ?thesis
    by (subst main_loop.simps) (simp add: p r n)
qed

lemma main_loop_cd_home:
  assumes "stdin_q w = map RByte ''cd\<newline>''" "write_q w = []" "length b = 1024"
    and "home_env w = Some ''/home/u''"
    and "chdir_res w (cwd w) ''/home/u'' = Inr ''/home/u''"
  shows "main_loop w (Some b) 1024 =
     Ret 0 (w\<lparr>stdin_q := [], cwd := ''/home/u'',
              log := log w @ [Wrote STDOUT_FILENO PROMPT, Wrote STDOUT_FILENO PROMPT,
                              Wrote STDOUT_FILENO ''\<newline>'']\<rparr>)"
proof -
  let ?w1 = "w\<lparr>log := log w @ [Wrote STDOUT_FILENO PROMPT]\<rparr>"
  let ?w2 = "?w1\<lparr>stdin_q := []\<rparr>"
  let ?w3 = "?w2\<lparr>cwd := ''/home/u''\<rparr>"
  define b2 where "b2 = ''cd'' @ NUL # drop 3 b"
  have p: "print_str w STDOUT_FILENO PROMPT = Ret () ?w1"
    using assms(2) by (simp add: print_str_quiet PROMPT_def)
  have "read_line ?w1 (Some b) 1024 =
      Ret (1, Some (''cd'' @ NUL # drop (length ''cd'' + 1) b), 1024) ?w2"
    by (rule read_line_first) (use assms in simp_all)
  then have r: "read_line ?w1 (Some b) 1024 = Ret (1, Some b2, 1024) ?w2"
    by (simp add: numeral_3_eq_3 b2_def)
  have t: "parse_tokens b2 MAX_ARGS = (b2, [0])" unfolding b2_def by (rule parse_cd)
  have z: "byte_at b2 0 \<noteq> NUL" by (simp add: b2_def byte_at_def)
  have c: "cstr_at b2 0 = ''cd''" by (simp add: b2_def cstr_at_def)
  have h: "handle_cd ?w2 1 [''cd''] = Ret () ?w3"
    using assms(4,5) by (simp add: handle_cd_def sys_chdir_def)
  have l: "length b2 = 1024" using assms(3) by (simp add: b2_def)
  have "main_loop w (Some b) 1024 = main_loop ?w3 (Some b2) 1024"
    by (subst main_loop.simps) (simp add: p r t z c h)
  also have "\<dots> = Ret 0 (?w3\<lparr>log := log ?w3 @ [Wrote STDOUT_FILENO PROMPT,
      Wrote STDOUT_FILENO ''\<newline>'']\<rparr>)"
    by (rule main_loop_eof) (use assms l in simp_all)
  finally show ?thesis by simp
qed


lemma handle_cd_chdir:
  assumes "2 \<le> argc \<and> target = argv ! 1 \<or>
           argc < 2 \<and> home_env w = Some target \<and> target \<noteq> []"
  shows "handle_cd w argc argv =
     (case chdir_res w (cwd w) target of
        Inr d \<Rightarrow> Ret () (w\<lparr>cwd := d\<rparr>)
      | Inl e \<Rightarrow> perror (w\<lparr>errno := e\<rparr>) ''cd'')"
  using assms by (auto simp: handle_cd_def sys_chdir_def split: sum.splits)

lemma handle_cd_no_home:
  assumes "argc < 2" "home_env w = None \<or> home_env w = Some []"
  shows "handle_cd w argc argv = print_str w STDERR_FILENO ''cd: HOME not set\<newline>''"
  using assms by (auto simp: handle_cd_def)

lemma main_cd_tmp_then_cd:
  assumes "stdin_q w = map RByte ''cd /tmp\<newline>cd\<newline>''" "write_q w = []"
    and "alloc_ok w INITIAL_BUFSZ" "home_env w = Some ''/home/u''"
    and "\<forall>d. chdir_res w d ''/home/u'' = Inr ''/home/u''"
  shows "\<exists>w'. main w = Ret 0 w' \<and> cwd w' = ''/home/u''"
proof -
  let ?w1 = "w\<lparr>log := log w @ [Wrote STDOUT_FILENO PROMPT]\<rparr>"
  let ?buf0 = "map (fresh_mem ?w1) [0..<1024]"
  define w2 where "w2 = ?w1\<lparr>stdin_q := map RByte ''cd\<newline>''\<rparr>"
  define rest where "rest = drop (length ''cd /tmp'' + 1) ?buf0"
  define b1 where "b1 = ''cd /tmp'' @ NUL # rest"
  define b2 where "b2 = ''cd'' @ NUL # ''/tmp'' @ NUL # rest"
  have p: "print_str w STDOUT_FILENO PROMPT = Ret () ?w1"
    using assms(2) by (simp add: print_str_quiet PROMPT_def)
  have "read_line ?w1 (Some ?buf0) 1024 =
      Ret (1, Some (''cd /tmp'' @ NUL # drop (length ''cd /tmp'' + 1) ?buf0), 1024)
        (?w1\<lparr>stdin_q := map RByte ''cd\<newline>''\<rparr>)"
    by (rule read_line_first) (use assms in simp_all)
  moreover have "read_line ?w1 None 0 = read_line ?w1 (Some ?buf0) 1024"
    by (rule read_line_fresh) (use assms in simp)
  ultimately have r: "read_line ?w1 None 0 = Ret (1, Some b1, 1024) w2"
    by (simp only: b1_def rest_def w2_def)
  have t: "parse_tokens b1 MAX_ARGS = (b2, [0, 3])" unfolding b1_def b2_def by (rule parse_cd_tmp)
  have z: "byte_at b1 0 \<noteq> NUL" by (simp add: b1_def byte_at_def)
  have c: "cstr_at b2 0 = ''cd''" "cstr_at b2 3 = ''/tmp''"
    by (simp_all add: b2_def cstr_at_def numeral_3_eq_3)
  have l: "length b2 = 1024" by (simp add: b2_def rest_def)
  have f: "stdin_q w2 = map RByte ''cd\<newline>''" "write_q w2 = []"
    "home_env w2 = Some ''/home/u''" "chdir_res w2 = chdir_res w"
    using assms by (simp_all add: w2_def)
  obtain w3 where h: "handle_cd w2 2 [''cd'', ''/tmp''] = Ret () w3"
    and w3: "stdin_q w3 = map RByte ''cd\<newline>''" "write_q w3 = []"
    "home_env w3 = Some ''/home/u''" "chdir_res w3 = chdir_res w"
  proof (cases "chdir_res w2 (cwd w2) ''/tmp''")
    case (Inl e)
    with f show ?thesis
      by (intro that [of "w2\<lparr>errno := e, log := log w2 @ [Perror ''cd'' e]\<rparr>"])
        (simp_all add: handle_cd_chdir [where target = "''/tmp''"] perror_quiet)
  next
    case (Inr d)
    with f show ?thesis
      by (intro that [of "w2\<lparr>cwd := d\<rparr>"])
        (simp_all add: handle_cd_chdir [where target = "''/tmp''"])
  qed
  have "main w = main_loop w3 (Some b2) 1024"
    unfolding main_def by (subst main_loop.simps) (simp add: p r t z c h)
  also have "\<dots> = Ret 0 (w3\<lparr>stdin_q := [], cwd := ''/home/u'',
              log := log w3 @ [Wrote STDOUT_FILENO PROMPT, Wrote STDOUT_FILENO PROMPT,
                              Wrote STDOUT_FILENO ''\<newline>'']\<rparr>)"
    by (rule main_loop_cd_home) (use w3 l assms(5) in simp_all)
  finally show ?thesis by simp
qed


text \<open>
  More environments: the two-line script of the \<open>cd\<close> scenario; \<open>HOME\<close> unset with
  standard error closed (\<open>write\<close> answers \<open>EBADF\<close>); a standard input whose first
  \<open>read\<close> fails with \<open>EIO\<close>; an \<open>execv\<close> of \<open>/bin/sh\<close> that fails with \<open>ENOENT\<close>; a
  \<open>/bin/sh\<close> that runs and exits with code 127 (wait status \<open>0x7F00\<close>); a \<open>chdir\<close> that
  fails with \<open>ENOENT\<close>; the same with standard error a pipe nobody reads; the shell
  started as \<open>bash-mini | true\<close>, its standard output a pipe nobody reads.
\<close>

definition cd_world :: world where
  "cd_world = demo_world\<lparr>stdin_q := map RByte ''cd /tmp\<newline>cd\<newline>''\<rparr>"

definition no_home_closed_stderr_world :: world where
  "no_home_closed_stderr_world = demo_world\<lparr>home_env := None, write_q := [WErr 9]\<rparr>"

definition read_error_world :: world where
  "read_error_world = demo_world\<lparr>stdin_q := [RErr 5]\<rparr>"



definition no_dir_world :: world where
  "no_dir_world = demo_world\<lparr>chdir_res := \<lambda>c t. Inl 2\<rparr>"

definition no_dir_broken_stderr_world :: world where
  "no_dir_broken_stderr_world = demo_world\<lparr>chdir_res := \<lambda>c t. Inl 2, write_q := [WSigpipe]\<rparr>"

definition broken_pipe_world :: world where
  "broken_pipe_world = demo_world\<lparr>write_q := [WSigpipe]\<rparr>"

text \<open>
  C9 says that \<open>cd\<close> is never fatal. Two paths of \<open>handle_cd\<close> end the shell, both in
  the output of its error report. With no argument and \<open>HOME\<close> unset, line 190 prints
  \<open>cd: HOME not set\<close> through \<open>print_str\<close>, and \<open>write_all\<close> leaves with \<open>_exit(1)\<close> when
  \<open>write\<close> fails (lines 36-39): with standard error closed, \<open>cd\<close> ends the shell with
  status 1. And the shell leaves \<open>SIGPIPE\<close> at its default action: with standard error a
  pipe nobody reads, a \<open>cd\<close> whose \<open>chdir\<close> fails is killed inside \<open>perror\<close>.
\<close>

theorem cd_fatal_counterexample:
  "handle_cd no_home_closed_stderr_world 1 [''cd''] =
     Exit 1 (no_home_closed_stderr_world\<lparr>write_q := [], errno := 9,
        log := [WriteFailed STDERR_FILENO]\<rparr>) \<and>
   handle_cd no_dir_broken_stderr_world 2 [''cd'', ''/nowhere''] =
     Killed SIGPIPE (no_dir_broken_stderr_world\<lparr>write_q := [], errno := 2,
        log := [Sigpipe STDERR_FILENO]\<rparr>)"
  by (simp add: handle_cd_def print_str_def write_all.simps sys_write_def sys_chdir_def
      perror_def no_home_closed_stderr_world_def no_dir_broken_stderr_world_def demo_world_def)

text \<open>
  C9, amended. With an argument \<open>cd\<close> changes to that path, with none to \<open>$HOME\<close>, and
  returns. A failed \<open>chdir\<close> is reported by \<open>perror\<close>, and \<open>handle_cd\<close> returns with the
  directory unchanged unless the write of \<open>perror\<close> raises \<open>SIGPIPE\<close>. With \<open>HOME\<close> unset
  or empty it prints \<open>cd: HOME not set\<close> on standard error and, when it returns, the
  directory is unchanged. \<open>handle_cd\<close> never faults. It leaves through \<open>_exit\<close> in one
  case only, with status 1: \<open>HOME\<close> is unset or empty and the write of that message
  fails. It is killed by no signal but \<open>SIGPIPE\<close>, raised by the environment while an
  error report is written to standard error, the directory being unchanged. After
  \<open>cd /tmp\<close> and \<open>cd\<close> with \<open>HOME=/home/u\<close> (the writes taken, the first block granted,
  \<open>chdir\<close> to \<open>/home/u\<close> succeeding) \<open>main\<close> returns 0 with working directory \<open>/home/u\<close>.
\<close>

theorem cd_builtin:
  "(\<forall>t d. (2 \<le> argc \<and> t = argv ! 1 \<or> argc < 2 \<and> home_env w = Some t \<and> t \<noteq> []) \<and>
      chdir_res w (cwd w) t = Inr d \<longrightarrow>
      handle_cd w argc argv = Ret () (w\<lparr>cwd := d\<rparr>)) \<and>
   (\<forall>t e. (2 \<le> argc \<and> t = argv ! 1 \<or> argc < 2 \<and> home_env w = Some t \<and> t \<noteq> []) \<and>
      chdir_res w (cwd w) t = Inl e \<longrightarrow>
      handle_cd w argc argv = perror (w\<lparr>errno := e\<rparr>) ''cd'' \<and>
      ((\<forall>q. write_q w \<noteq> WSigpipe # q) \<longrightarrow>
         (\<exists>w'. handle_cd w argc argv = Ret () w' \<and> cwd w' = cwd w \<and>
            log w' = log w @ [Perror ''cd'' e]))) \<and>
   (argc < 2 \<and> (home_env w = None \<or> home_env w = Some []) \<longrightarrow>
      handle_cd w argc argv = print_str w STDERR_FILENO ''cd: HOME not set\<newline>'' \<and>
      (\<forall>u w'. handle_cd w argc argv = Ret u w' \<longrightarrow>
         cwd w' = cwd w \<and>
         written STDERR_FILENO (log w') =
           written STDERR_FILENO (log w) @ ''cd: HOME not set\<newline>'')) \<and>
   (\<forall>w'. handle_cd w argc argv \<noteq> Fault w') \<and>
   (\<forall>c w'. handle_cd w argc argv = Exit c w' \<longrightarrow>
      c = 1 \<and> write_failed (log w') \<and> argc < 2 \<and>
      (home_env w = None \<or> home_env w = Some [])) \<and>
   (\<forall>g w'. handle_cd w argc argv = Killed g w' \<longrightarrow>
      g = SIGPIPE \<and> WSigpipe \<in> set (write_q w) \<and> cwd w' = cwd w \<and>
      (\<exists>es. log w' = log w @ es @ [Sigpipe STDERR_FILENO])) \<and>
   (stdin_q w = map RByte ''cd /tmp\<newline>cd\<newline>'' \<and> write_q w = [] \<and>
    alloc_ok w INITIAL_BUFSZ \<and> home_env w = Some ''/home/u'' \<and>
    (\<forall>d. chdir_res w d ''/home/u'' = Inr ''/home/u'') \<longrightarrow>
      (\<exists>w'. main w = Ret 0 w' \<and> cwd w' = ''/home/u''))"
proof -
  have a: "handle_cd w argc argv = Ret () (w\<lparr>cwd := d\<rparr>)"
    if "(2 \<le> argc \<and> t = argv ! 1 \<or> argc < 2 \<and> home_env w = Some t \<and> t \<noteq> []) \<and>
      chdir_res w (cwd w) t = Inr d" for t d
    using that handle_cd_chdir [of argc t argv w] by simp
  have b1: "handle_cd w argc argv = perror (w\<lparr>errno := e\<rparr>) ''cd''"
    if "(2 \<le> argc \<and> t = argv ! 1 \<or> argc < 2 \<and> home_env w = Some t \<and> t \<noteq> []) \<and>
      chdir_res w (cwd w) t = Inl e" for t e
    using that handle_cd_chdir [of argc t argv w] by simp
  have b2: "\<exists>w'. perror (w\<lparr>errno := e\<rparr>) ''cd'' = Ret () w' \<and> cwd w' = cwd w \<and>
            log w' = log w @ [Perror ''cd'' e]"
    if "\<forall>q. write_q w \<noteq> WSigpipe # q" for e
    using that perror_taken [of "w\<lparr>errno := e\<rparr>" "''cd''"] by (auto simp: only_output_def)
  have b: "handle_cd w argc argv = perror (w\<lparr>errno := e\<rparr>) ''cd'' \<and>
      ((\<forall>q. write_q w \<noteq> WSigpipe # q) \<longrightarrow>
         (\<exists>w'. handle_cd w argc argv = Ret () w' \<and> cwd w' = cwd w \<and>
            log w' = log w @ [Perror ''cd'' e]))"
    if "(2 \<le> argc \<and> t = argv ! 1 \<or> argc < 2 \<and> home_env w = Some t \<and> t \<noteq> []) \<and>
      chdir_res w (cwd w) t = Inl e" for t e
    using b1 [OF that] b2 [of e] by simp
  note p = prints_facts [OF prints_print_str [of STDERR_FILENO "''cd: HOME not set\<newline>''" w]]
  have c: "handle_cd w argc argv = print_str w STDERR_FILENO ''cd: HOME not set\<newline>'' \<and>
      (\<forall>u w'. handle_cd w argc argv = Ret u w' \<longrightarrow>
         cwd w' = cwd w \<and>
         written STDERR_FILENO (log w') =
           written STDERR_FILENO (log w) @ ''cd: HOME not set\<newline>'')"
    if "argc < 2 \<and> (home_env w = None \<or> home_env w = Some [])"
  proof -
    from that have e: "handle_cd w argc argv = print_str w STDERR_FILENO ''cd: HOME not set\<newline>''"
      by (intro handle_cd_no_home) simp_all
    have "cwd w' = cwd w \<and> written STDERR_FILENO (log w') =
           written STDERR_FILENO (log w) @ ''cd: HOME not set\<newline>''"
      if "handle_cd w argc argv = Ret u w'" for u w'
      using p(2) p(3) [of u w'] that unfolding e by (simp add: only_output_def)
    with e show ?thesis by blast
  qed
  note f = handle_cd_fails_only_on_write [of w argc argv]
  have d: "handle_cd w argc argv \<noteq> Fault w'" for w'
    using f by (auto simp: fails_only_on_write_def)
  consider (none) "argc < 2 \<and> (home_env w = None \<or> home_env w = Some [])"
    | (ok) t d' where
      "(2 \<le> argc \<and> t = argv ! 1 \<or> argc < 2 \<and> home_env w = Some t \<and> t \<noteq> []) \<and>
       chdir_res w (cwd w) t = Inr d'"
    | (err) t e where
      "(2 \<le> argc \<and> t = argv ! 1 \<or> argc < 2 \<and> home_env w = Some t \<and> t \<noteq> []) \<and>
       chdir_res w (cwd w) t = Inl e"
  proof (cases "argc < 2 \<and> (home_env w = None \<or> home_env w = Some [])")
    case True
    then show ?thesis by (rule none)
  next
    case nn: False
    obtain t where
      t: "2 \<le> argc \<and> t = argv ! 1 \<or> argc < 2 \<and> home_env w = Some t \<and> t \<noteq> []"
    proof (cases "2 \<le> argc")
      case True
      then show ?thesis by (intro that [of "argv ! 1"]) simp
    next
      case False
      with nn obtain h where "home_env w = Some h" "h \<noteq> []" by (cases "home_env w") auto
      with False show ?thesis by (intro that [of h]) simp
    qed
    show ?thesis
    proof (cases "chdir_res w (cwd w) t")
      case (Inl e)
      with t show ?thesis by (intro err [of t e]) simp
    next
      case (Inr d')
      with t show ?thesis by (intro ok [of t d']) simp
    qed
  qed
  note cs = this
  have x: "c = 1 \<and> write_failed (log w') \<and> argc < 2 \<and>
      (home_env w = None \<or> home_env w = Some [])"
    if ex: "handle_cd w argc argv = Exit c w'" for c w'
  proof -
    from f ex have 1: "c = 1 \<and> write_failed (log w')" by (simp add: fails_only_on_write_def)
    from cs show ?thesis
    proof cases
      case none
      with 1 show ?thesis by simp
    next
      case (ok t d')
      from a [OF ok] ex show ?thesis by simp
    next
      case (err t e)
      from b1 [OF err] ex have "perror (w\<lparr>errno := e\<rparr>) ''cd'' = Exit c w'" by simp
      then show ?thesis by simp
    qed
  qed
  have k: "g = SIGPIPE \<and> WSigpipe \<in> set (write_q w) \<and> cwd w' = cwd w \<and>
      (\<exists>es. log w' = log w @ es @ [Sigpipe STDERR_FILENO])"
    if kl: "handle_cd w argc argv = Killed g w'" for g w'
    using cs
  proof cases
    case none
    from c [OF none] kl
    have "print_str w STDERR_FILENO ''cd: HOME not set\<newline>'' = Killed g w'" by simp
    with prints_print_str [of STDERR_FILENO "''cd: HOME not set\<newline>''" w]
    show ?thesis by (auto simp: prints_def only_output_def)
  next
    case (ok t d')
    from a [OF ok] kl show ?thesis by simp
  next
    case (err t e)
    from b1 [OF err] kl have "perror (w\<lparr>errno := e\<rparr>) ''cd'' = Killed g w'" by simp
    from perror_Killed [OF this] show ?thesis by (auto simp: only_output_def)
  qed
  have s: "\<exists>w'. main w = Ret 0 w' \<and> cwd w' = ''/home/u''"
    if "stdin_q w = map RByte ''cd /tmp\<newline>cd\<newline>'' \<and> write_q w = [] \<and>
    alloc_ok w INITIAL_BUFSZ \<and> home_env w = Some ''/home/u'' \<and>
    (\<forall>d. chdir_res w d ''/home/u'' = Inr ''/home/u'')"
    using that by (intro main_cd_tmp_then_cd) simp_all
  from a b c d x k s show ?thesis by blast
qed

theorem cd_builtin_witness:
  "(\<exists>w'. main cd_world = Ret 0 w' \<and> cwd w' = ''/home/u'') \<and>
   handle_cd no_dir_world 2 [''cd'', ''/nowhere''] =
     Ret () (no_dir_world\<lparr>errno := 2, log := [Perror ''cd'' 2]\<rparr>)"
proof -
  have "stdin_q cd_world = map RByte ''cd /tmp\<newline>cd\<newline>'' \<and> write_q cd_world = [] \<and>
    alloc_ok cd_world INITIAL_BUFSZ \<and> home_env cd_world = Some ''/home/u'' \<and>
    (\<forall>d. chdir_res cd_world d ''/home/u'' = Inr ''/home/u'')"
    by (simp add: cd_world_def demo_world_def INITIAL_BUFSZ_def)
  with cd_builtin [where w = cd_world and argc = 0 and argv = "[]"]
  have "\<exists>w'. main cd_world = Ret 0 w' \<and> cwd w' = ''/home/u''" by blast
  moreover have "(2 \<le> (2::int) \<and> ''/nowhere'' = [''cd'', ''/nowhere''] ! 1 \<or>
      (2::int) < 2 \<and> home_env no_dir_world = Some ''/nowhere'' \<and> ''/nowhere'' \<noteq> []) \<and>
      chdir_res no_dir_world (cwd no_dir_world) ''/nowhere'' = Inl 2"
    by (simp add: no_dir_world_def)
  with cd_builtin [where w = no_dir_world and argc = 2 and argv = "[''cd'', ''/nowhere'']"]
  have "handle_cd no_dir_world 2 [''cd'', ''/nowhere''] =
      perror (no_dir_world\<lparr>errno := 2\<rparr>) ''cd''" by blast
  then have "handle_cd no_dir_world 2 [''cd'', ''/nowhere''] =
     Ret () (no_dir_world\<lparr>errno := 2, log := [Perror ''cd'' 2]\<rparr>)"
    by (simp add: perror_def no_dir_world_def demo_world_def)
  ultimately show ?thesis by blast
qed

text \<open>
  C10 says that the only nonzero termination of the shell is the exit status 1 of a
  failed write. The source has no call of \<open>signal\<close> or \<open>sigaction\<close>: started as
  \<open>bash-mini | true\<close>, the shell is killed by \<open>SIGPIPE\<close> (signal 13) inside the write of
  its first prompt, and \<open>_exit(1)\<close> at line 37 is not reached.
\<close>

theorem shell_killed_by_sigpipe_counterexample:
  "main broken_pipe_world =
     Killed 13 (broken_pipe_world\<lparr>write_q := [], log := [Sigpipe STDOUT_FILENO]\<rparr>)"
proof -
  have "print_str broken_pipe_world STDOUT_FILENO PROMPT =
      Killed SIGPIPE (broken_pipe_world\<lparr>write_q := [], log := [Sigpipe STDOUT_FILENO]\<rparr>)"
    unfolding print_str_def
    by (subst write_all.simps)
      (simp add: sys_write_def PROMPT_def broken_pipe_world_def demo_world_def)
  then show ?thesis
    unfolding main_def by (subst main_loop.simps) (simp add: SIGPIPE_def)
qed

text \<open>
  C10, amended. Whatever the environment, \<open>main\<close> ends in one of three ways: it returns
  0, no write having failed since the start; it leaves with \<open>_exit(1)\<close> after a failed
  write; or it is killed by \<open>SIGPIPE\<close> in a write, which happens only when the
  environment answers a write with that signal. Where no write raises \<open>SIGPIPE\<close> the
  exit status is 0, or 1 after a failed write. In particular, when \<open>read_line\<close> answers a
  negative value (lines 275-278) the error is printed with \<open>perror\<close> and \<open>main\<close> returns
  0.
\<close>

theorem shell_exit_status:
  "((\<exists>w'. main w = Ret 0 w' \<and> write_failed (log w') = write_failed (log w) \<and>
           sigpipe_raised (log w') = sigpipe_raised (log w)) \<or>
    (\<exists>w'. main w = Exit 1 w' \<and> write_failed (log w')) \<or>
    (\<exists>w'. main w = Killed SIGPIPE w' \<and> sigpipe_raised (log w') \<and>
           WSigpipe \<in> set (write_q w))) \<and>
   (WSigpipe \<notin> set (write_q w) \<longrightarrow>
      (\<exists>w'. main w = Ret 0 w' \<and> write_failed (log w') = write_failed (log w)) \<or>
      (\<exists>w'. main w = Exit 1 w' \<and> write_failed (log w'))) \<and>
   (\<forall>line cap u w1 r l c w2.
      print_str w STDOUT_FILENO PROMPT = Ret u w1 \<and>
      read_line w1 line cap = Ret (r, l, c) w2 \<and> r < 0 \<longrightarrow>
      main_loop w line cap = then_do (perror w2 ''read'') (\<lambda>w. Ret 0 w) \<and>
      ((\<forall>q. write_q w2 \<noteq> WSigpipe # q) \<longrightarrow>
         (\<exists>w3. main_loop w line cap = Ret 0 w3 \<and>
            log w3 = log w2 @ [Perror ''read'' (errno w2)])))"
proof -
  from main_sound [of w]
  have 1: "(\<exists>w'. main w = Ret 0 w' \<and> write_failed (log w') = write_failed (log w) \<and>
           sigpipe_raised (log w') = sigpipe_raised (log w)) \<or>
    (\<exists>w'. main w = Exit 1 w' \<and> write_failed (log w')) \<or>
    (\<exists>w'. main w = Killed SIGPIPE w' \<and> sigpipe_raised (log w') \<and>
           WSigpipe \<in> set (write_q w))"
    by (cases "main w") (simp_all add: shell_end_def same_failures_def)
  then have 2: "(\<exists>w'. main w = Ret 0 w' \<and> write_failed (log w') = write_failed (log w)) \<or>
      (\<exists>w'. main w = Exit 1 w' \<and> write_failed (log w'))"
    if "WSigpipe \<notin> set (write_q w)"
    using that by blast
  have 3: "main_loop w line cap = then_do (perror w2 ''read'') (\<lambda>w. Ret 0 w) \<and>
      ((\<forall>q. write_q w2 \<noteq> WSigpipe # q) \<longrightarrow>
         (\<exists>w3. main_loop w line cap = Ret 0 w3 \<and>
            log w3 = log w2 @ [Perror ''read'' (errno w2)]))"
    if h: "print_str w STDOUT_FILENO PROMPT = Ret u w1 \<and>
      read_line w1 line cap = Ret (r, l, c) w2 \<and> r < 0" for line cap u w1 r l c w2
  proof -
    from h have e: "main_loop w line cap = then_do (perror w2 ''read'') (\<lambda>w. Ret 0 w)"
      by (subst main_loop.simps) simp
    have "\<exists>w3. main_loop w line cap = Ret 0 w3 \<and> log w3 = log w2 @ [Perror ''read'' (errno w2)]"
      if "\<forall>q. write_q w2 \<noteq> WSigpipe # q"
      using perror_taken [OF that, of "''read''"] unfolding e by auto
    with e show ?thesis by blast
  qed
  from 1 2 3 show ?thesis by blast
qed

theorem shell_exit_status_witness:
  "main read_error_world =
     Ret 0 (read_error_world\<lparr>stdin_q := [], errno := 5,
       log := [Wrote STDOUT_FILENO PROMPT, Perror ''read'' 5]\<rparr>)"
proof -
  let ?w1 = "read_error_world\<lparr>log := [Wrote STDOUT_FILENO PROMPT]\<rparr>"
  let ?w2 = "?w1\<lparr>stdin_q := [], errno := 5\<rparr>"
  have p: "print_str read_error_world STDOUT_FILENO PROMPT = Ret () ?w1"
    by (simp add: print_str_quiet PROMPT_def read_error_world_def demo_world_def)
  define b where "b = map (fresh_mem ?w1) [0..<1024]"
  have lb: "length b = 1024" by (simp add: b_def)
  have "read_line ?w1 None 0 = read_line ?w1 (Some b) 1024"
    unfolding b_def
    by (rule read_line_fresh) (simp add: read_error_world_def demo_world_def INITIAL_BUFSZ_def)
  also have "\<dots> = Ret (- 1, Some b, 1024) ?w2"
    using lb by (simp add: read_line_def rl_enter_def read_loop.simps read_iter_def rl_grow_def
        size_t_def sys_read_def read_error_world_def demo_world_def)
  finally have r: "read_line ?w1 None 0 = Ret (- 1, Some b, 1024) ?w2" .
  have "print_str read_error_world STDOUT_FILENO PROMPT = Ret () ?w1 \<and>
      read_line ?w1 None 0 = Ret (- 1, Some b, 1024) ?w2 \<and> (- 1 :: int) < 0"
    using p r by simp
  with shell_exit_status [of read_error_world]
  have "main_loop read_error_world None 0 = then_do (perror ?w2 ''read'') (\<lambda>w. Ret 0 w)"
    by blast
  then show ?thesis by (simp add: main_def perror_def read_error_world_def demo_world_def)
qed





subsection \<open>Tokens and words\<close>

text \<open>
  The words of a line, as the specification describes them: the maximal runs of bytes
  other than space and tab. \<open>words_of\<close> does not read \<open>parse_tokens\<close>; the two are
  compared below.
\<close>

definition blank :: "char \<Rightarrow> bool" where
  "blank c = (c = CHR '' '' \<or> c = CHR 0x09)"

definition token_char :: "char \<Rightarrow> bool" where
  "token_char c = (c \<noteq> NUL \<and> \<not> blank c)"

lemma dropWhile_hd_shorter: "xs \<noteq> [] \<Longrightarrow> P (hd xs) \<Longrightarrow> length (dropWhile P xs) < length xs"
  by (cases xs) (simp_all add: le_imp_less_Suc length_dropWhile_le)

function words_of :: "string \<Rightarrow> string list" where
  "words_of s =
     (let s1 = dropWhile blank s in
      if s1 = [] then []
      else takeWhile (\<lambda>c. \<not> blank c) s1 # words_of (dropWhile (\<lambda>c. \<not> blank c) s1))"
  by pat_completeness auto
termination
proof (relation "measure length", goal_cases)
  case 1
  show ?case by simp
next
  case (2 s s1)
  then have "\<not> blank (hd s1)" using hd_dropWhile [of blank s] by simp
  with 2 have "length (dropWhile (\<lambda>c. \<not> blank c) s1) < length s1"
    by (intro dropWhile_hd_shorter) simp_all
  moreover have "length s1 \<le> length s" using 2 by (simp add: length_dropWhile_le)
  ultimately show ?case by simp
qed

declare words_of.simps [simp del]

lemma takeWhile_takeWhile_conj:
  "takeWhile P (takeWhile Q xs) = takeWhile (\<lambda>x. P x \<and> Q x) xs"
  by (induction xs) auto

lemma dropWhile_takeWhile_conj:
  "dropWhile P (takeWhile Q xs) = takeWhile Q (dropWhile (\<lambda>x. P x \<and> Q x) xs)"
  by (induction xs) auto

lemma drop_Cons_Suc: "drop p line = c # r \<Longrightarrow> drop (Suc p) line = r"
  by (metis drop_Suc tl_drop list.sel(3))

lemma byte_at_drop: "byte_at line p = (case drop p line of [] \<Rightarrow> NUL | c # _ \<Rightarrow> c)"
proof (cases "p < length line")
  case True
  then have "drop p line = line ! p # drop (Suc p) line" by (simp add: Cons_nth_drop_Suc)
  then show ?thesis using True by (simp add: byte_at_def)
next
  case False
  then show ?thesis by (simp add: byte_at_def)
qed

lemma skip_blanks_eq: "skip_blanks line p = p + length (takeWhile blank (drop p line))"
proof (induction line p rule: skip_blanks.induct)
  case (1 line p)
  show ?case
  proof (cases "drop p line")
    case Nil
    then show ?thesis by (subst skip_blanks.simps) (simp add: byte_at_drop)
  next
    case (Cons c r)
    then have r: "drop (p + 1) line = r" using drop_Cons_Suc by simp
    show ?thesis
    proof (cases "blank c")
      case True
      then have "skip_blanks line p = skip_blanks line (p + 1)"
        using Cons by (subst skip_blanks.simps) (simp add: byte_at_drop blank_def)
      also have "\<dots> = p + 1 + length (takeWhile blank (drop (p + 1) line))"
        using True Cons by (intro "1.IH") (simp add: byte_at_drop blank_def)
      finally show ?thesis using True Cons r by simp
    next
      case False
      then show ?thesis using Cons by (subst skip_blanks.simps) (simp add: byte_at_drop blank_def)
    qed
  qed
qed

lemma skip_token_eq: "skip_token line p = p + length (takeWhile token_char (drop p line))"
proof (induction line p rule: skip_token.induct)
  case (1 line p)
  show ?case
  proof (cases "drop p line")
    case Nil
    then show ?thesis by (subst skip_token.simps) (simp add: byte_at_drop)
  next
    case (Cons c r)
    then have r: "drop (p + 1) line = r" using drop_Cons_Suc by simp
    show ?thesis
    proof (cases "token_char c")
      case True
      then have "skip_token line p = skip_token line (p + 1)"
        using Cons by (subst skip_token.simps) (simp add: byte_at_drop blank_def token_char_def)
      also have "\<dots> = p + 1 + length (takeWhile token_char (drop (p + 1) line))"
        using True Cons by (intro "1.IH") (simp add: byte_at_drop blank_def token_char_def)
      finally show ?thesis using True Cons r by simp
    next
      case False
      then show ?thesis using Cons
        by (subst skip_token.simps) (auto simp add: byte_at_drop blank_def token_char_def)
    qed
  qed
qed

lemma cstr_at_NUL: "byte_at line p = NUL \<Longrightarrow> cstr_at line p = []"
  by (cases "drop p line") (auto simp: byte_at_drop cstr_at_def)

lemma words_of_Nil: "words_of [] = []"
  by (simp add: words_of.simps)

lemma words_of_blank: "blank c \<Longrightarrow> words_of (c # s) = words_of s"
  by (simp add: words_of.simps [of "c # s"] words_of.simps [of s])

lemma blank_conj: "(\<lambda>x. blank x \<and> x \<noteq> NUL) = blank"
  by (auto simp: blank_def)

lemma token_char_conj: "(\<lambda>x. \<not> blank x \<and> x \<noteq> NUL) = token_char"
  by (auto simp: token_char_def)

lemma words_of_cstr:
  "words_of (takeWhile (\<lambda>c. c \<noteq> NUL) r) =
     (let r1 = dropWhile blank r in
      if r1 = [] \<or> hd r1 = NUL then []
      else takeWhile token_char r1 #
           words_of (takeWhile (\<lambda>c. c \<noteq> NUL) (dropWhile token_char r1)))"
proof -
  define r1 where "r1 = dropWhile blank r"
  have a: "dropWhile blank (takeWhile (\<lambda>c. c \<noteq> NUL) r) = takeWhile (\<lambda>c. c \<noteq> NUL) r1"
    by (simp add: dropWhile_takeWhile_conj blank_conj r1_def)
  have b: "takeWhile (\<lambda>c. c \<noteq> NUL) r1 = [] \<longleftrightarrow> r1 = [] \<or> hd r1 = NUL"
    by (cases r1) auto
  have c: "takeWhile (\<lambda>c. \<not> blank c) (takeWhile (\<lambda>c. c \<noteq> NUL) r1) = takeWhile token_char r1"
    by (simp add: takeWhile_takeWhile_conj token_char_conj)
  have d: "dropWhile (\<lambda>c. \<not> blank c) (takeWhile (\<lambda>c. c \<noteq> NUL) r1) =
           takeWhile (\<lambda>c. c \<noteq> NUL) (dropWhile token_char r1)"
    by (simp add: dropWhile_takeWhile_conj token_char_conj)
  show ?thesis
    unfolding r1_def [symmetric] Let_def
    by (subst words_of.simps) (simp add: a b c d Let_def)
qed


lemma dropWhile_Cons_not: "dropWhile P xs = c # r \<Longrightarrow> \<not> P c"
  by (metis hd_dropWhile list.sel(1) list.distinct(1))

lemma cstr_at_token:
  assumes "drop p1 line' = t @ R" "\<forall>c\<in>set t. c \<noteq> NUL" "R = [] \<or> hd R = NUL"
  shows "cstr_at line' p1 = t"
proof (cases R)
  case Nil
  then show ?thesis using assms by (simp add: cstr_at_def)
next
  case (Cons c R')
  then have "c = NUL" using assms(3) by simp
  then show ?thesis using assms(1,2) Cons by (simp add: cstr_at_def takeWhile_tail)
qed

lemma token_char_nz: "\<forall>c\<in>set (takeWhile token_char xs). c \<noteq> NUL"
  using set_takeWhileD [of _ token_char xs] by (auto simp: token_char_def)

lemma byte_at_NUL_drop: "byte_at line p = NUL \<longleftrightarrow> drop p line = [] \<or> hd (drop p line) = NUL"
  by (cases "drop p line") (simp_all add: byte_at_drop)

lemma parse_loop_words:
  "\<exists>new. snd (parse_loop line p argv m) = argv @ new \<and>
     take p (fst (parse_loop line p argv m)) = take p line \<and>
     map (cstr_at (fst (parse_loop line p argv m))) new =
       take (nat (m - 1 - int (length argv))) (words_of (cstr_at line p))"
proof (induction line p argv m rule: parse_loop.induct)
  case (1 line p argv m)
  define p1 where "p1 = skip_blanks line p"
  define r1 where "r1 = drop p1 line"
  define t where "t = takeWhile token_char r1"
  define p2 where "p2 = skip_token line p1"
  define k where "k = nat (m - 1 - int (length argv))"
  note pl = parse_loop.simps [of line p argv m]
  have p1: "p1 = p + length (takeWhile blank (drop p line))"
    by (simp add: p1_def skip_blanks_eq)
  have r1: "r1 = dropWhile blank (drop p line)"
    by (simp add: r1_def p1 dropWhile_eq_drop add.commute)
  have p2: "p2 = p1 + length t"
    by (simp add: p2_def skip_token_eq t_def r1_def)
  have r2: "drop p2 line = dropWhile token_char r1"
    by (simp add: r1_def p2 t_def dropWhile_eq_drop add.commute)
  have split1: "drop p1 line = t @ drop p2 line"
    by (simp add: r2 t_def r1_def [symmetric])
  have w: "words_of (cstr_at line p) =
      (if byte_at line p1 = NUL then [] else t # words_of (cstr_at line p2))"
    using words_of_cstr [of "drop p line"]
    by (simp add: cstr_at_def r1 [symmetric] t_def [symmetric] r2 Let_def byte_at_NUL_drop
        r1_def [symmetric])
  show ?case
  proof (cases "byte_at line p = NUL")
    case True
    then show ?thesis by (simp add: pl cstr_at_NUL words_of_Nil)
  next
    case a: False
    show ?thesis
    proof (cases "byte_at line p1 = NUL")
      case True
      then show ?thesis using a by (simp add: pl w p1_def [symmetric])
    next
      case b: False
      show ?thesis
      proof (cases "int (length argv) \<ge> m - 1")
        case True
        then show ?thesis using a b by (simp add: pl p1_def [symmetric])
      next
        case c: False
        then have k: "k = Suc (nat (m - 1 - int (length (argv @ [p1]))))"
          by (simp add: k_def)
        show ?thesis
        proof (cases "byte_at line p2 = NUL")
          case True
          have "parse_loop line p2 (argv @ [p1]) m = (line, argv @ [p1])"
            using True by (simp add: parse_loop.simps [of line p2])
          then have res: "parse_loop line p argv m = (line, argv @ [p1])"
            using a b c True by (simp add: pl p1_def [symmetric] p2_def [symmetric] Let_def)
          have "cstr_at line p1 = t"
            using split1 token_char_nz [of r1] True
            by (intro cstr_at_token [of p1 line t "drop p2 line"])
               (simp_all add: t_def byte_at_NUL_drop)
          moreover have "words_of (cstr_at line p2) = []"
            using True by (simp add: cstr_at_NUL words_of_Nil)
          ultimately have "map (cstr_at line) [p1] = take k (words_of (cstr_at line p))"
            using b by (simp add: w k)
          then show ?thesis unfolding res k_def by (intro exI [of _ "[p1]"]) simp
        next
          case d: False
          define line2 where "line2 = line[p2 := NUL]"
          define res where "res = parse_loop line2 (p2 + 1) (argv @ [p1]) m"
          have eq: "parse_loop line p argv m = res"
            using a b c d
            by (simp add: pl p1_def [symmetric] p2_def [symmetric] Let_def res_def line2_def)
          from "1.IH"(1) [OF a p1_def b c refl p2_def d]
          obtain new' where n1: "snd res = (argv @ [p1]) @ new'"
            and n2: "take (p2 + 1) (fst res) = take (p2 + 1) line2"
            and n3: "map (cstr_at (fst res)) new' =
               take (nat (m - 1 - int (length (argv @ [p1])))) (words_of (cstr_at line2 (p2 + 1)))"
            unfolding res_def line2_def by blast
          have lt: "p2 < length line" using d by (rule byte_at_nonzero_lt)
          have le: "p \<le> p1" "p1 \<le> p2" by (simp_all add: p1 p2)
          have t2: "take (p2 + 1) line2 = take p2 line @ [NUL]"
            using lt by (simp add: line2_def take_Suc_conv_app_nth)
          have "take p (fst res) = take p (take (p2 + 1) (fst res))"
            using le by (simp add: min_def)
          also have "\<dots> = take p (take p2 line @ [NUL])"
            by (simp only: n2 t2)
          also have "\<dots> = take p line"
            using le lt by (simp add: min_def)
          finally have i: "take p (fst res) = take p line" .
          have "take (p2 + 1) (fst res) @ drop (p2 + 1) (fst res) = fst res"
            by (rule append_take_drop_id)
          then have "fst res = (take p2 line @ [NUL]) @ drop (p2 + 1) (fst res)"
            unfolding n2 t2 by (rule sym)
          then have "drop p1 (fst res) =
              drop p1 ((take p2 line @ [NUL]) @ drop (p2 + 1) (fst res))"
            by (rule arg_cong)
          also have "\<dots> = drop p1 (take p2 line) @ NUL # drop (p2 + 1) (fst res)"
            using le lt by simp
          also have "drop p1 (take p2 line) = t"
            by (simp add: drop_take p2 t_def r1_def [symmetric] takeWhile_eq_take [symmetric])
          finally have dr: "drop p1 (fst res) = t @ NUL # drop (p2 + 1) (fst res)" .
          have ii: "cstr_at (fst res) p1 = t"
          proof (rule cstr_at_token)
            show "drop p1 (fst res) = t @ NUL # drop (p2 + 1) (fst res)" by (rule dr)
            show "\<forall>c\<in>set t. c \<noteq> NUL" unfolding t_def by (rule token_char_nz)
            show "NUL # drop (p2 + 1) (fst res) = [] \<or> hd (NUL # drop (p2 + 1) (fst res)) = NUL"
              by simp
          qed
          obtain c r3 where cr: "drop p2 line = c # r3"
            using d by (cases "drop p2 line") (simp_all add: byte_at_drop)
          then have "c \<noteq> NUL" using d by (simp add: byte_at_drop)
          moreover have "\<not> token_char c"
            using cr r2 by (intro dropWhile_Cons_not [of token_char r1 c r3]) simp
          ultimately have bl: "blank c" by (simp add: token_char_def)
          have "drop (p2 + 1) line2 = r3"
            using cr drop_Cons_Suc [of p2 line c r3] by (simp add: line2_def)
          then have "cstr_at line2 (p2 + 1) = takeWhile (\<lambda>c. c \<noteq> NUL) r3"
            by (simp add: cstr_at_def)
          moreover have "cstr_at line p2 = c # takeWhile (\<lambda>c. c \<noteq> NUL) r3"
            using cr \<open>c \<noteq> NUL\<close> by (simp add: cstr_at_def)
          ultimately have iii: "words_of (cstr_at line p2) = words_of (cstr_at line2 (p2 + 1))"
            using bl by (simp add: words_of_blank)
          have "map (cstr_at (fst res)) (p1 # new') = take k (words_of (cstr_at line p))"
            using b by (simp add: w k ii iii n3)
          then show ?thesis
            unfolding eq k_def using n1 i by (intro exI [of _ "p1 # new'"]) simp
        qed
      qed
    qed
  qed
qed

lemma parse_tokens_words:
  "map (cstr_at (fst (parse_tokens line m))) (snd (parse_tokens line m)) =
     take (nat (m - 1)) (words_of (cstr_at line 0))"
  using parse_loop_words [of line 0 "[]" m] by (auto simp: parse_tokens_def)


text \<open>
  C1 says that a line is truncated at 128 tokens. \<open>parse_tokens\<close> stops at
  \<open>argc >= max_args - 1\<close> (line 119), which keeps \<open>argv[argc]\<close> for the terminating null
  pointer, so with \<open>MAX_ARGS = 128\<close> it keeps 127 tokens. A line of 128 tokens followed
  by one more token gives 127 tokens.
\<close>

theorem token_cap_128_counterexample:
  "map (cstr_at (fst (parse_tokens (concat (replicate 128 ''a '') @ ''b'' @ [NUL]) MAX_ARGS)))
       (snd (parse_tokens (concat (replicate 128 ''a '') @ ''b'' @ [NUL]) MAX_ARGS)) =
     replicate 127 ''a'' \<and>
   length (snd (parse_tokens (concat (replicate 128 ''a '') @ ''b'' @ [NUL]) MAX_ARGS)) = 127 \<and>
   length (words_of (concat (replicate 128 ''a '') @ ''b'')) = 129"
proof -
  have w: "words_of (cstr_at (concat (replicate 128 ''a '') @ ''b'' @ [NUL]) 0) =
      replicate 128 ''a'' @ [''b'']"
    by code_simp
  have m: "map (cstr_at (fst (parse_tokens (concat (replicate 128 ''a '') @ ''b'' @ [NUL]) MAX_ARGS)))
       (snd (parse_tokens (concat (replicate 128 ''a '') @ ''b'' @ [NUL]) MAX_ARGS)) =
     replicate 127 ''a''"
    unfolding parse_tokens_words w by (simp add: MAX_ARGS_def)
  have "length (map (cstr_at (fst (parse_tokens (concat (replicate 128 ''a '') @ ''b'' @ [NUL]) MAX_ARGS)))
       (snd (parse_tokens (concat (replicate 128 ''a '') @ ''b'' @ [NUL]) MAX_ARGS))) = 127"
    unfolding m by simp
  then have l: "length (snd (parse_tokens (concat (replicate 128 ''a '') @ ''b'' @ [NUL]) MAX_ARGS)) = 127"
    by (simp only: length_map)
  have "length (words_of (concat (replicate 128 ''a '') @ ''b'')) = 129"
    by code_simp
  with m l show ?thesis by blast
qed

text \<open>
  C1, amended. For every line \<open>parse_tokens\<close> returns at most 127 tokens
  (\<open>MAX_ARGS - 1\<close>, the terminator then fits \<open>argv[128]\<close>). Read as C strings in the line
  as \<open>parse_tokens\<close> leaves it, they are the first 127 whitespace-separated words of the
  line; what follows is dropped, and \<open>parse_tokens\<close> has no error path.
\<close>

theorem tokens_capped_at_127:
  "length (snd (parse_tokens line MAX_ARGS)) \<le> 127 \<and>
   int (length (snd (parse_tokens line MAX_ARGS))) < MAX_ARGS \<and>
   map (cstr_at (fst (parse_tokens line MAX_ARGS))) (snd (parse_tokens line MAX_ARGS)) =
     take 127 (words_of (cstr_at line 0)) \<and>
   length (fst (parse_tokens line MAX_ARGS)) = length line"
proof -
  have m: "map (cstr_at (fst (parse_tokens line MAX_ARGS))) (snd (parse_tokens line MAX_ARGS)) =
     take 127 (words_of (cstr_at line 0))"
    by (simp add: parse_tokens_words MAX_ARGS_def)
  have "length (map (cstr_at (fst (parse_tokens line MAX_ARGS))) (snd (parse_tokens line MAX_ARGS)))
      \<le> 127"
    unfolding m by simp
  then have l: "length (snd (parse_tokens line MAX_ARGS)) \<le> 127" by (simp only: length_map)
  then have "int (length (snd (parse_tokens line MAX_ARGS))) < MAX_ARGS"
    by (simp add: MAX_ARGS_def)
  moreover have "length (fst (parse_tokens line MAX_ARGS)) = length line"
    by (simp add: parse_tokens_def parse_loop_length)
  ultimately show ?thesis using m l by blast
qed

theorem tokens_capped_at_127_witness:
  "map (cstr_at (fst (parse_tokens (concat (replicate 127 ''a '') @ ''b c'' @ [NUL]) MAX_ARGS)))
       (snd (parse_tokens (concat (replicate 127 ''a '') @ ''b c'' @ [NUL]) MAX_ARGS)) =
     replicate 127 ''a'' \<and>
   length (words_of (concat (replicate 127 ''a '') @ ''b c'')) = 129"
proof -
  have w: "take 127 (words_of (cstr_at (concat (replicate 127 ''a '') @ ''b c'' @ [NUL]) 0)) =
      replicate 127 ''a''"
    by code_simp
  have "length (words_of (concat (replicate 127 ''a '') @ ''b c'')) = 129"
    by code_simp
  with tokens_capped_at_127 [of "concat (replicate 127 ''a '') @ ''b c'' @ [NUL]"] w
  show ?thesis by (simp only: simp_thms)
qed

end
